theory Spec2Isabelle
  imports Main "HOL-Library.Word"
begin

section \<open>The path-reduction tree of pr_tree.c\<close>

text \<open>
  Keys and data are opaque \<^verbatim>\<open>void *\<close> values: the tree stores and returns them and
  hands keys to the comparator, nothing else. A pointer is modelled by its address, the
  null pointer by address 0.
\<close>

type_synonym ptr = nat

definition NULL :: ptr where
  "NULL = 0"

text \<open>
  The macros \<^verbatim>\<open>MALLOC\<close>, \<^verbatim>\<open>FREE\<close> and \<^verbatim>\<open>ASSERT\<close> come from dict_private.h, which
  is outside pr_tree.c. \<^verbatim>\<open>MALLOC\<close> is an allocation that may return the null pointer:
  every function that calls it takes a flag that tells whether the allocation succeeds.
  \<^verbatim>\<open>ASSERT\<close> is taken to stop the program when its condition is false. A function in
  which an assertion can fail, or a null child can be dereferenced, returns an
  \<open>option\<close>, and \<open>None\<close> is that failure.
\<close>

text \<open>
  \<^verbatim>\<open>struct pr_node\<close>. A node exclusively owns its two subtrees, so the node graph under
  a root is a value of the datatype below; \<open>Null\<close> is the null child pointer. The
  \<^verbatim>\<open>parent\<close> back-reference of a node is the chain of \<open>frame\<close>s that leads from the
  node up to the root: the frame \<open>LeftOf k d w r\<close> is a parent with key \<open>k\<close>, datum
  \<open>d\<close>, weight \<open>w\<close> and right subtree \<open>r\<close>, whose \<^verbatim>\<open>llink\<close> is the node the chain
  starts from; \<open>RightOf l k d w\<close> is a parent whose \<^verbatim>\<open>rlink\<close> is that node.

  \<^verbatim>\<open>weight_t\<close> is \<^verbatim>\<open>unsigned long\<close>. The weight of a node counts the null links below
  it, one more than the number of nodes of its subtree; each node occupies six machine
  words, so the count stays below the range of \<^verbatim>\<open>unsigned long\<close> and is a \<open>nat\<close> here.
\<close>

datatype pr_node =
    Null
  | Node (llink: pr_node) (key: ptr) (datum: ptr) (weight: nat) (rlink: pr_node)

datatype frame =
    LeftOf ptr ptr nat pr_node
  | RightOf pr_node ptr ptr nat

text \<open>\<^verbatim>\<open>#define WEIGHT(n) ((n) ? (n)->weight : 1)\<close>\<close>

fun WEIGHT :: "pr_node \<Rightarrow> nat" where
  "WEIGHT Null = 1"
| "WEIGHT (Node l k d w r) = w"

text \<open>\<^verbatim>\<open>#define REWEIGH(n) (n)->weight = WEIGHT((n)->llink) + WEIGHT((n)->rlink)\<close>\<close>

fun REWEIGH :: "pr_node \<Rightarrow> pr_node" where
  "REWEIGH Null = Null"
| "REWEIGH (Node l k d w r) = Node l k d (WEIGHT l + WEIGHT r) r"

text \<open>
  \<^verbatim>\<open>rot_left(tree, node)\<close> and \<^verbatim>\<open>rot_right(tree, node)\<close>. The argument is the subtree
  rooted at \<^verbatim>\<open>node\<close>, the result the subtree that takes its place under the unchanged
  parent (or as the root). \<open>None\<close> is the failed \<^verbatim>\<open>ASSERT\<close> on a null node or a null
  \<^verbatim>\<open>rlink\<close> (\<^verbatim>\<open>llink\<close>). The node is reweighed before the child that moved above it.
\<close>

fun rot_left :: "pr_node \<Rightarrow> pr_node option" where
  "rot_left (Node a k d w (Node c k' d' w' e)) =
     Some (REWEIGH (Node (REWEIGH (Node a k d w c)) k' d' w' e))"
| "rot_left _ = None"

fun rot_right :: "pr_node \<Rightarrow> pr_node option" where
  "rot_right (Node (Node a k' d' w' c) k d w e) =
     Some (REWEIGH (Node a k' d' w' (REWEIGH (Node c k d w e))))"
| "rot_right _ = None"

text \<open>
  \<^verbatim>\<open>fixup(tree, node)\<close>, and the macro \<^verbatim>\<open>FIXUP\<close>, which expands to the same
  statements. The argument is the subtree rooted at \<^verbatim>\<open>node\<close>; the result is the
  subtree found in its place when the function returns. After a rotation \<^verbatim>\<open>node\<close>
  has moved one level down, and \<^verbatim>\<open>goto again\<close> examines it there: the recursive call
  on \<open>node'\<close>. After a double rotation the function first calls itself on
  \<^verbatim>\<open>temp->rlink\<close> (\<^verbatim>\<open>temp->llink\<close> in the mirror case) when that link is not null.
  \<open>None\<close> is a failed \<^verbatim>\<open>ASSERT\<close> or the dereference of a null child.
\<close>

function fixup :: "pr_node \<Rightarrow> pr_node option" where
  "fixup Null = None"
| "fixup (Node l k d w r) =
     (let wl = WEIGHT l; wr = WEIGHT r in
      if wr > wl then
        (case r of
           Null \<Rightarrow> None
         | Node rl rk rd rw rr \<Rightarrow>
             if WEIGHT rr > wl then
               (case rot_left (Node l k d w r) of
                  Some (Node node' k' d' w' e) \<Rightarrow>
                    (case fixup node' of
                       None \<Rightarrow> None
                     | Some n \<Rightarrow> Some (Node n k' d' w' e))
                | _ \<Rightarrow> None)
             else if WEIGHT rl > wl then
               (case rot_right r of
                  None \<Rightarrow> None
                | Some r' \<Rightarrow>
                   (case rot_left (Node l k d w r') of
                      Some (Node node' k' d' w' (Node c tk td tw e)) \<Rightarrow>
                        (case (if e \<noteq> Null then fixup e else Some e) of
                           None \<Rightarrow> None
                         | Some e' \<Rightarrow>
                            (case fixup node' of
                               None \<Rightarrow> None
                             | Some n \<Rightarrow> Some (Node n k' d' w' (Node c tk td tw e'))))
                    | _ \<Rightarrow> None))
             else Some (Node l k d w r))
      else if wl > wr then
        (case l of
           Null \<Rightarrow> None
         | Node ll lk ld lw lr \<Rightarrow>
             if WEIGHT ll > wr then
               (case rot_right (Node l k d w r) of
                  Some (Node a k' d' w' node') \<Rightarrow>
                    (case fixup node' of
                       None \<Rightarrow> None
                     | Some n \<Rightarrow> Some (Node a k' d' w' n))
                | _ \<Rightarrow> None)
             else if WEIGHT lr > wr then
               (case rot_left l of
                  None \<Rightarrow> None
                | Some l' \<Rightarrow>
                   (case rot_right (Node l' k d w r) of
                      Some (Node (Node a tk td tw c) k' d' w' node') \<Rightarrow>
                        (case (if a \<noteq> Null then fixup a else Some a) of
                           None \<Rightarrow> None
                         | Some a' \<Rightarrow>
                            (case fixup node' of
                               None \<Rightarrow> None
                             | Some n \<Rightarrow> Some (Node (Node a' tk td tw c) k' d' w' n)))
                    | _ \<Rightarrow> None))
             else Some (Node l k d w r))
      else Some (Node l k d w r))"
  by pat_completeness auto
termination
  by (relation "measure size")
     (auto split: pr_node.splits option.splits if_splits elim!: rot_left.elims rot_right.elims)

subsection \<open>The tree\<close>

text \<open>
  \<^verbatim>\<open>struct pr_tree\<close>. \<^verbatim>\<open>count\<close> is \<^verbatim>\<open>unsigned\<close>, 32 bits wide. \<open>del_func\<close> tells
  whether the caller gave a deleter; what the deleter does is not the tree's business, so
  the model keeps only the sequence of its calls: \<open>deleted\<close> lists the key and datum
  of every call, oldest first.
\<close>

record pr_tree =
  root :: pr_node
  count :: "32 word"
  key_cmp :: "ptr \<Rightarrow> ptr \<Rightarrow> int"
  del_func :: bool
  deleted :: "(ptr \<times> ptr) list"

text \<open>
  Modelled from the spec: \<^verbatim>\<open>dict_ptr_cmp\<close>, the comparator \<^verbatim>\<open>pr_tree_new\<close> falls back
  to, is defined outside pr_tree.c. Its name and the specification's statement about
  creation without a comparator describe it as a comparison of the two pointers
  themselves, which orders keys by their addresses; only the sign of its result matters
  to the tree.
\<close>

definition dict_ptr_cmp :: "ptr \<Rightarrow> ptr \<Rightarrow> int" where
  "dict_ptr_cmp k1 k2 = (if k1 < k2 then - 1 else if k1 > k2 then 1 else 0)"

text \<open>
  \<^verbatim>\<open>pr_tree_new(key_cmp, del_func)\<close>. The first argument of the model tells whether
  \<^verbatim>\<open>MALLOC\<close> succeeds; the result \<open>None\<close> is the null pointer returned when it does
  not. A null \<^verbatim>\<open>key_cmp\<close> is \<open>None\<close>.
\<close>

definition pr_tree_new :: "bool \<Rightarrow> (ptr \<Rightarrow> ptr \<Rightarrow> int) option \<Rightarrow> bool \<Rightarrow> pr_tree option" where
  "pr_tree_new malloc_ok cmp del =
     (if \<not> malloc_ok then None
      else Some \<lparr> root = Null, count = 0,
                  key_cmp = (case cmp of Some c \<Rightarrow> c | None \<Rightarrow> dict_ptr_cmp),
                  del_func = del, deleted = [] \<rparr>)"

text \<open>\<^verbatim>\<open>pr_tree_search\<close>: the loop from a node down, and the function.\<close>

fun search_loop :: "(ptr \<Rightarrow> ptr \<Rightarrow> int) \<Rightarrow> ptr \<Rightarrow> pr_node \<Rightarrow> ptr" where
  "search_loop cmp k Null = NULL"
| "search_loop cmp k (Node l nk nd w r) =
     (let rv = cmp k nk in
      if rv < 0 then search_loop cmp k l
      else if rv > 0 then search_loop cmp k r
      else nd)"

definition pr_tree_search :: "pr_tree \<Rightarrow> ptr \<Rightarrow> ptr" where
  "pr_tree_search tree k = search_loop (key_cmp tree) k (root tree)"

definition pr_tree_csearch :: "pr_tree \<Rightarrow> ptr \<Rightarrow> ptr" where
  "pr_tree_csearch tree k = pr_tree_search tree k"

text \<open>
  Putting a subtree back under its parent chain: \<open>attach\<close> stores it in the child link
  the frame stands for, \<open>plug\<close> does so up to the root.
\<close>

fun attach :: "frame \<Rightarrow> pr_node \<Rightarrow> pr_node" where
  "attach (LeftOf k d w r) t = Node t k d w r"
| "attach (RightOf l k d w) t = Node l k d w t"

fun plug :: "pr_node \<Rightarrow> frame list \<Rightarrow> pr_node" where
  "plug t [] = t"
| "plug t (f # fs) = plug (attach f t) fs"

text \<open>
  \<^verbatim>\<open>node_new(key, datum)\<close>; the first argument tells whether \<^verbatim>\<open>MALLOC\<close> succeeds, and
  the result is \<open>Null\<close> when it does not.
\<close>

definition node_new :: "bool \<Rightarrow> ptr \<Rightarrow> ptr \<Rightarrow> pr_node" where
  "node_new malloc_ok k d = (if malloc_ok then Node Null k d 2 Null else Null)"

text \<open>
  The search loop of \<^verbatim>\<open>pr_tree_insert\<close> and \<^verbatim>\<open>pr_tree_probe\<close>: it stops at the node
  whose key compares equal, or at a null link, and yields that node together with its
  parent chain. A step to the left (\<^verbatim>\<open>rv < 0\<close>) pushes a \<open>LeftOf\<close> frame, a step to the
  right a \<open>RightOf\<close> frame, so that the first frame records the last \<^verbatim>\<open>rv\<close>.
\<close>

fun descend :: "(ptr \<Rightarrow> ptr \<Rightarrow> int) \<Rightarrow> ptr \<Rightarrow> pr_node \<Rightarrow> frame list \<Rightarrow> pr_node \<times> frame list" where
  "descend cmp k Null parents = (Null, parents)"
| "descend cmp k (Node l nk nd w r) parents =
     (let rv = cmp k nk in
      if rv < 0 then descend cmp k l (LeftOf nk nd w r # parents)
      else if rv > 0 then descend cmp k r (RightOf l nk nd w # parents)
      else (Node l nk nd w r, parents))"

text \<open>
  \<^verbatim>\<open>node->weight++\<close> and \<^verbatim>\<open>temp->weight--\<close>. The decrement is applied to the
  ancestors of a node that has just been unlinked; in a tree with correct weights such a
  weight is at least 2, so that the subtraction on \<open>nat\<close> is the subtraction of the
  code.
\<close>

fun incr_weight :: "pr_node \<Rightarrow> pr_node" where
  "incr_weight Null = Null"
| "incr_weight (Node l k d w r) = Node l k d (w + 1) r"

fun decr_weight :: "frame \<Rightarrow> frame" where
  "decr_weight (LeftOf k d w r) = LeftOf k d (w - 1) r"
| "decr_weight (RightOf l k d w) = RightOf l k d (w - 1)"

text \<open>
  The loop \<^verbatim>\<open>while ((node = parent) != NULL)\<close> that ends \<^verbatim>\<open>pr_tree_insert\<close> and
  \<^verbatim>\<open>pr_tree_probe\<close>: from the parent of the new node up to the root, each ancestor has
  its weight incremented and \<^verbatim>\<open>FIXUP\<close> run on it. The first argument is the subtree
  below the next ancestor, the result the new root.
\<close>

fun insert_fixup :: "pr_node \<Rightarrow> frame list \<Rightarrow> pr_node option" where
  "insert_fixup t [] = Some t"
| "insert_fixup t (f # parents) =
     (case fixup (incr_weight (attach f t)) of
        None \<Rightarrow> None
      | Some t' \<Rightarrow> insert_fixup t' parents)"

text \<open>
  \<^verbatim>\<open>pr_tree_insert(tree, key, datum, overwrite)\<close>; the last argument of the model tells
  whether \<^verbatim>\<open>MALLOC\<close> succeeds. The result is the returned \<^verbatim>\<open>int\<close> and the tree
  afterwards, or \<open>None\<close> when an assertion fails or a null pointer is dereferenced.
\<close>

definition pr_tree_insert :: "pr_tree \<Rightarrow> ptr \<Rightarrow> ptr \<Rightarrow> int \<Rightarrow> bool \<Rightarrow> (int \<times> pr_tree) option" where
  "pr_tree_insert tree k d overwrite malloc_ok =
     (case descend (key_cmp tree) k (root tree) [] of
        (Node l nk nd w r, parents) \<Rightarrow>
          if overwrite = 0 then Some (1, tree)
          else Some (0, tree\<lparr> root := plug (Node l k d w r) parents,
                               deleted := (if del_func tree then deleted tree @ [(nk, nd)]
                                           else deleted tree) \<rparr>)
      | (Null, parents) \<Rightarrow>
          (case node_new malloc_ok k d of
             Null \<Rightarrow> Some (- 1, tree)
           | Node nl nk nd nw nr \<Rightarrow>
               (case parents of
                  [] \<Rightarrow> if count tree = 0
                        then Some (0, tree\<lparr> root := Node nl nk nd nw nr, count := 1 \<rparr>)
                        else None
                | _ # _ \<Rightarrow>
                    (case insert_fixup (Node nl nk nd nw nr) parents of
                       None \<Rightarrow> None
                     | Some t \<Rightarrow> Some (0, tree\<lparr> root := t, count := count tree + 1 \<rparr>)))))"

text \<open>
  \<^verbatim>\<open>pr_tree_probe(tree, key, datum)\<close>, \<^verbatim>\<open>datum\<close> being the caller's in/out slot: the
  model takes the content of the slot and returns, after the \<^verbatim>\<open>int\<close>, the content of
  the slot afterwards.
\<close>

definition pr_tree_probe :: "pr_tree \<Rightarrow> ptr \<Rightarrow> ptr \<Rightarrow> bool \<Rightarrow> (int \<times> ptr \<times> pr_tree) option" where
  "pr_tree_probe tree k slot malloc_ok =
     (case descend (key_cmp tree) k (root tree) [] of
        (Node l nk nd w r, parents) \<Rightarrow> Some (0, nd, tree)
      | (Null, parents) \<Rightarrow>
          (case node_new malloc_ok k slot of
             Null \<Rightarrow> Some (- 1, slot, tree)
           | Node nl nk nd nw nr \<Rightarrow>
               (case parents of
                  [] \<Rightarrow> if count tree = 0
                        then Some (1, slot, tree\<lparr> root := Node nl nk nd nw nr, count := 1 \<rparr>)
                        else None
                | _ # _ \<Rightarrow>
                    (case insert_fixup (Node nl nk nd nw nr) parents of
                       None \<Rightarrow> None
                     | Some t \<Rightarrow> Some (1, slot, tree\<lparr> root := t, count := count tree + 1 \<rparr>)))))"

text \<open>
  The loop \<^verbatim>\<open>for (; temp; temp = temp->parent) temp->weight--\<close> of \<^verbatim>\<open>pr_tree_remove\<close>:
  \<open>out\<close> has taken the place of the removed node below the first frame, and every
  ancestor loses one unit of weight. The result is the new root.
\<close>

fun decr_weights :: "pr_node \<Rightarrow> frame list \<Rightarrow> pr_node" where
  "decr_weights out [] = out"
| "decr_weights out (f # parents) = decr_weights (attach (decr_weight f) out) parents"

text \<open>
  The two splice branches of \<^verbatim>\<open>pr_tree_remove\<close> do the same with \<^verbatim>\<open>out\<close>, the only
  child of the node or null: unlink the node with key \<open>nk\<close> and datum \<open>nd\<close>, hand both
  to the deleter if there is one, decrement the weights above and the count.
\<close>

definition splice :: "pr_tree \<Rightarrow> ptr \<Rightarrow> ptr \<Rightarrow> pr_node \<Rightarrow> frame list \<Rightarrow> pr_tree" where
  "splice tree nk nd out parents =
     tree\<lparr> root := decr_weights out parents,
           count := count tree - 1,
           deleted := (if del_func tree then deleted tree @ [(nk, nd)] else deleted tree) \<rparr>"

text \<open>
  The two rotation branches of \<^verbatim>\<open>pr_tree_remove\<close>, for a node with two children. The
  result is the frame of \<^verbatim>\<open>out\<close>, the child that has moved above the node, and the
  subtree now rooted at the node, one level further down.
\<close>

definition remove_rotate :: "pr_node \<Rightarrow> (frame \<times> pr_node) option" where
  "remove_rotate node =
     (case node of
        Node (Node ll lk ld lw lr) k d w (Node rl rk rd rw rr) \<Rightarrow>
          if WEIGHT (Node ll lk ld lw lr) > WEIGHT (Node rl rk rd rw rr) then
            (case (if WEIGHT ll < WEIGHT lr then rot_left (Node ll lk ld lw lr)
                   else Some (Node ll lk ld lw lr)) of
               None \<Rightarrow> None
             | Some l' \<Rightarrow>
                 (case rot_right (Node l' k d w (Node rl rk rd rw rr)) of
                    Some (Node a ok od ow node') \<Rightarrow> Some (RightOf a ok od ow, node')
                  | _ \<Rightarrow> None))
          else
            (case (if WEIGHT rr < WEIGHT rl then rot_right (Node rl rk rd rw rr)
                   else Some (Node rl rk rd rw rr)) of
               None \<Rightarrow> None
             | Some r' \<Rightarrow>
                 (case rot_left (Node (Node ll lk ld lw lr) k d w r') of
                    Some (Node node' ok od ow e) \<Rightarrow> Some (LeftOf ok od ow e, node')
                  | _ \<Rightarrow> None))
      | _ \<Rightarrow> None)"

text \<open>
  The loop \<^verbatim>\<open>while (node)\<close> of \<^verbatim>\<open>pr_tree_remove\<close>, from \<^verbatim>\<open>node\<close> with its parent chain.
  After a rotation the loop goes on at the same node (\<^verbatim>\<open>out->rlink\<close> or
  \<^verbatim>\<open>out->llink\<close>), and compares the key with it again.
\<close>

function remove_loop :: "pr_tree \<Rightarrow> ptr \<Rightarrow> pr_node \<Rightarrow> frame list \<Rightarrow> (int \<times> pr_tree) option" where
  "remove_loop tree k Null parents = Some (- 1, tree)"
| "remove_loop tree k (Node l nk nd w r) parents =
     (let rv = key_cmp tree k nk in
      if rv \<noteq> 0 then
        (if rv < 0 then remove_loop tree k l (LeftOf nk nd w r # parents)
         else remove_loop tree k r (RightOf l nk nd w # parents))
      else if l = Null then Some (0, splice tree nk nd r parents)
      else if r = Null then Some (0, splice tree nk nd l parents)
      else
        (case remove_rotate (Node l nk nd w r) of
           None \<Rightarrow> None
         | Some (out, node') \<Rightarrow> remove_loop tree k node' (out # parents)))"
  by pat_completeness auto
termination
  by (relation "measure (\<lambda>(tree, k, node, parents). size node)")
     (auto simp: remove_rotate_def
           split: pr_node.splits option.splits if_splits
           elim!: rot_left.elims rot_right.elims)

text \<open>
  \<^verbatim>\<open>pr_tree_remove(tree, key)\<close>, which asserts that the key is not null. \<^verbatim>\<open>ASSERT\<close>
  comes from a header outside pr_tree.c; a failed assertion is taken to stop the program,
  the result \<open>None\<close>.
\<close>

definition pr_tree_remove :: "pr_tree \<Rightarrow> ptr \<Rightarrow> (int \<times> pr_tree) option" where
  "pr_tree_remove tree k =
     (if k = NULL then None else remove_loop tree k (root tree) [])"

text \<open>
  \<^verbatim>\<open>pr_tree_empty(tree)\<close>. Its loop goes down to a node without children, hands it to
  the deleter, frees it, clears the link of the parent and goes on at the parent. The
  model of the loop yields the deleter's calls in their order.
\<close>

fun empty_cost :: "frame list \<Rightarrow> nat" where
  "empty_cost [] = 0"
| "empty_cost (LeftOf k d w r # fs) = 2 * size r + 1 + empty_cost fs"
| "empty_cost (RightOf l k d w # fs) = 2 * size l + 1 + empty_cost fs"

function empty_loop :: "bool \<Rightarrow> pr_node \<Rightarrow> frame list \<Rightarrow> (ptr \<times> ptr) list \<Rightarrow> (ptr \<times> ptr) list" where
  "empty_loop del Null parents calls = calls"
| "empty_loop del (Node l k d w r) parents calls =
     (if l \<noteq> Null \<or> r \<noteq> Null then
        (if l \<noteq> Null then empty_loop del l (LeftOf k d w r # parents) calls
         else empty_loop del r (RightOf l k d w # parents) calls)
      else
        (let calls' = (if del then calls @ [(k, d)] else calls) in
         case parents of
           [] \<Rightarrow> calls'
         | f # fs \<Rightarrow> empty_loop del (attach f Null) fs calls'))"
  by pat_completeness auto
termination
proof (relation "measure (\<lambda>(del, node, parents, calls). 2 * size node + empty_cost parents)")
  show "wf (measure (\<lambda>(del, node, parents, calls). 2 * size node + empty_cost parents))"
    by simp
next
  fix del :: bool and l k d w r and parents :: "frame list" and calls :: "(ptr \<times> ptr) list"
  show "((del, l, LeftOf k d w r # parents, calls), (del, Node l k d w r, parents, calls))
        \<in> measure (\<lambda>(del, node, parents, calls). 2 * size node + empty_cost parents)"
    by simp
  show "((del, r, RightOf l k d w # parents, calls), (del, Node l k d w r, parents, calls))
        \<in> measure (\<lambda>(del, node, parents, calls). 2 * size node + empty_cost parents)"
    by simp
next
  fix del :: bool and l k d w r and parents :: "frame list" and calls calls' :: "(ptr \<times> ptr) list"
    and f fs
  assume "\<not> (l \<noteq> Null \<or> r \<noteq> Null)" "parents = f # fs"
  then show "((del, attach f Null, fs, calls'), (del, Node l k d w r, parents, calls))
        \<in> measure (\<lambda>(del, node, parents, calls). 2 * size node + empty_cost parents)"
    by (cases f) auto
qed

definition pr_tree_empty :: "pr_tree \<Rightarrow> 32 word \<times> pr_tree" where
  "pr_tree_empty tree =
     (count tree,
      tree\<lparr> root := Null, count := 0,
            deleted := empty_loop (del_func tree) (root tree) [] (deleted tree) \<rparr>)"

subsection \<open>Walking the nodes\<close>

text \<open>
  A non-null \<^verbatim>\<open>pr_node *\<close> into a tree gives access to the node's fields and, through
  \<^verbatim>\<open>parent\<close>, to its ancestors: \<open>Loc l k d w r parents\<close> is the node with children \<open>l\<close>
  and \<open>r\<close>, key \<open>k\<close>, datum \<open>d\<close>, weight \<open>w\<close> and the given parent chain. A pointer
  that may be null is a \<open>pr_loc option\<close>.
\<close>

datatype pr_loc =
  Loc (loc_llink: pr_node) (loc_key: ptr) (loc_datum: ptr) (loc_weight: nat)
      (loc_rlink: pr_node) (loc_parents: "frame list")

text \<open>The pointer \<^verbatim>\<open>tree->root\<close>.\<close>

fun root_loc :: "pr_node \<Rightarrow> pr_loc option" where
  "root_loc Null = None"
| "root_loc (Node l k d w r) = Some (Loc l k d w r [])"

text \<open>\<^verbatim>\<open>node_min\<close> and \<^verbatim>\<open>node_max\<close>.\<close>

function node_min :: "pr_loc \<Rightarrow> pr_loc" where
  "node_min (Loc Null k d w r parents) = Loc Null k d w r parents"
| "node_min (Loc (Node ll lk ld lw lr) k d w r parents) =
     node_min (Loc ll lk ld lw lr (LeftOf k d w r # parents))"
  by pat_completeness auto
termination
  by (relation "measure (\<lambda>n. size (loc_llink n))") auto

function node_max :: "pr_loc \<Rightarrow> pr_loc" where
  "node_max (Loc l k d w Null parents) = Loc l k d w Null parents"
| "node_max (Loc l k d w (Node rl rk rd rw rr) parents) =
     node_max (Loc rl rk rd rw rr (RightOf l k d w # parents))"
  by pat_completeness auto
termination
  by (relation "measure (\<lambda>n. size (loc_rlink n))") auto

text \<open>
  The second half of \<^verbatim>\<open>node_next\<close>: \<^verbatim>\<open>temp = node->parent\<close>, then climb while
  \<^verbatim>\<open>temp\<close> is not null and \<^verbatim>\<open>node\<close> is its right child. The first argument is the
  subtree rooted at \<^verbatim>\<open>node\<close>, the second its parent chain; the result is \<^verbatim>\<open>temp\<close>.
  \<open>climb_prev\<close> is the same for \<^verbatim>\<open>node_prev\<close>.
\<close>

fun climb_next :: "pr_node \<Rightarrow> frame list \<Rightarrow> pr_loc option" where
  "climb_next node [] = None"
| "climb_next node (RightOf l k d w # parents) = climb_next (Node l k d w node) parents"
| "climb_next node (LeftOf k d w r # parents) = Some (Loc node k d w r parents)"

fun climb_prev :: "pr_node \<Rightarrow> frame list \<Rightarrow> pr_loc option" where
  "climb_prev node [] = None"
| "climb_prev node (LeftOf k d w r # parents) = climb_prev (Node node k d w r) parents"
| "climb_prev node (RightOf l k d w # parents) = Some (Loc l k d w node parents)"

text \<open>
  \<^verbatim>\<open>node_next\<close> and \<^verbatim>\<open>node_prev\<close>. With a right child, \<^verbatim>\<open>node_next\<close> steps to it and
  runs the loop of \<^verbatim>\<open>node_min\<close>.
\<close>

fun node_next :: "pr_loc \<Rightarrow> pr_loc option" where
  "node_next (Loc l k d w (Node rl rk rd rw rr) parents) =
     Some (node_min (Loc rl rk rd rw rr (RightOf l k d w # parents)))"
| "node_next (Loc l k d w Null parents) = climb_next (Node l k d w Null) parents"

fun node_prev :: "pr_loc \<Rightarrow> pr_loc option" where
  "node_prev (Loc (Node ll lk ld lw lr) k d w r parents) =
     Some (node_max (Loc ll lk ld lw lr (LeftOf k d w r # parents)))"
| "node_prev (Loc Null k d w r parents) = climb_prev (Node Null k d w r) parents"

text \<open>
  The number of nodes that follow a node in the in-order sequence of its tree: the
  quantity that decreases when \<^verbatim>\<open>node_next\<close> is applied.
\<close>

fun nodes_after :: "frame list \<Rightarrow> nat" where
  "nodes_after [] = 0"
| "nodes_after (LeftOf k d w r # fs) = 1 + size r + nodes_after fs"
| "nodes_after (RightOf l k d w # fs) = nodes_after fs"

fun loc_rest :: "pr_loc option \<Rightarrow> nat" where
  "loc_rest None = 0"
| "loc_rest (Some (Loc l k d w r parents)) = 1 + size r + nodes_after parents"

lemma loc_rest_node_min:
  "loc_rest (Some (node_min (Loc l k d w r parents))) = 1 + size l + size r + nodes_after parents"
  by (induction "Loc l k d w r parents" arbitrary: l k d w r parents rule: node_min.induct) auto

lemma loc_rest_climb_next: "loc_rest (climb_next node parents) = nodes_after parents"
  by (induction node parents rule: climb_next.induct) auto

lemma loc_rest_node_next: "Suc (loc_rest (node_next n)) = loc_rest (Some n)"
  by (cases n rule: node_next.cases) (auto simp: loc_rest_node_min loc_rest_climb_next)

text \<open>
  \<^verbatim>\<open>pr_tree_walk(tree, visit)\<close>. The visitor is a function of key and datum that tells
  whether to go on. The model of the \<^verbatim>\<open>for\<close> loop carries the count and the list of the
  visitor's calls so far; \<open>pr_tree_walk\<close> returns both.
\<close>

function walk_loop ::
  "(ptr \<Rightarrow> ptr \<Rightarrow> bool) \<Rightarrow> pr_loc option \<Rightarrow> 32 word \<Rightarrow> (ptr \<times> ptr) list \<Rightarrow> 32 word \<times> (ptr \<times> ptr) list"
where
  "walk_loop visit None cnt calls = (cnt, calls)"
| "walk_loop visit (Some n) cnt calls =
     (if \<not> visit (loc_key n) (loc_datum n) then (cnt + 1, calls @ [(loc_key n, loc_datum n)])
      else walk_loop visit (node_next n) (cnt + 1) (calls @ [(loc_key n, loc_datum n)]))"
  by pat_completeness auto
termination
  by (relation "measure (\<lambda>(visit, n, cnt, calls). loc_rest n)")
     (auto simp: loc_rest_node_next [symmetric])

definition pr_tree_walk :: "pr_tree \<Rightarrow> (ptr \<Rightarrow> ptr \<Rightarrow> bool) \<Rightarrow> 32 word \<times> (ptr \<times> ptr) list" where
  "pr_tree_walk tree visit =
     (case root_loc (root tree) of
        None \<Rightarrow> (0, [])
      | Some n \<Rightarrow> walk_loop visit (Some (node_min n)) 0 [])"

definition pr_tree_count :: "pr_tree \<Rightarrow> 32 word" where
  "pr_tree_count tree = count tree"

subsection \<open>The iterator\<close>

text \<open>\<^verbatim>\<open>struct pr_itor\<close>: the tree and the current node, null when the iterator is unbound.\<close>

record pr_itor =
  itor_tree :: pr_tree
  itor_node :: "pr_loc option"

text \<open>\<^verbatim>\<open>#define RETVALID(itor) return itor->node != NULL\<close>\<close>

definition RETVALID :: "pr_itor \<Rightarrow> int" where
  "RETVALID itor = (if itor_node itor \<noteq> None then 1 else 0)"

definition pr_itor_valid :: "pr_itor \<Rightarrow> int" where
  "pr_itor_valid itor = RETVALID itor"

definition pr_itor_invalidate :: "pr_itor \<Rightarrow> pr_itor" where
  "pr_itor_invalidate itor = itor\<lparr> itor_node := None \<rparr>"

text \<open>
  The moves return the \<^verbatim>\<open>int\<close> of \<^verbatim>\<open>RETVALID\<close> and the iterator afterwards.
\<close>

definition pr_itor_first :: "pr_itor \<Rightarrow> int \<times> pr_itor" where
  "pr_itor_first itor =
     (let itor' = (case root_loc (root (itor_tree itor)) of
                     None \<Rightarrow> itor\<lparr> itor_node := None \<rparr>
                   | Some n \<Rightarrow> itor\<lparr> itor_node := Some (node_min n) \<rparr>)
      in (RETVALID itor', itor'))"

definition pr_itor_last :: "pr_itor \<Rightarrow> int \<times> pr_itor" where
  "pr_itor_last itor =
     (let itor' = (case root_loc (root (itor_tree itor)) of
                     None \<Rightarrow> itor\<lparr> itor_node := None \<rparr>
                   | Some n \<Rightarrow> itor\<lparr> itor_node := Some (node_max n) \<rparr>)
      in (RETVALID itor', itor'))"

definition pr_itor_next :: "pr_itor \<Rightarrow> int \<times> pr_itor" where
  "pr_itor_next itor =
     (let itor' = (case itor_node itor of
                     None \<Rightarrow> snd (pr_itor_first itor)
                   | Some n \<Rightarrow> itor\<lparr> itor_node := node_next n \<rparr>)
      in (RETVALID itor', itor'))"

definition pr_itor_prev :: "pr_itor \<Rightarrow> int \<times> pr_itor" where
  "pr_itor_prev itor =
     (let itor' = (case itor_node itor of
                     None \<Rightarrow> snd (pr_itor_last itor)
                   | Some n \<Rightarrow> itor\<lparr> itor_node := node_prev n \<rparr>)
      in (RETVALID itor', itor'))"

text \<open>
  \<^verbatim>\<open>pr_itor_new(tree)\<close>; the first argument tells whether \<^verbatim>\<open>MALLOC\<close> succeeds, \<open>None\<close>
  is the null pointer returned when it does not. The node field is not initialised
  before \<^verbatim>\<open>pr_itor_first\<close> assigns it.
\<close>

definition pr_itor_new :: "bool \<Rightarrow> pr_tree \<Rightarrow> pr_itor option" where
  "pr_itor_new malloc_ok tree =
     (if \<not> malloc_ok then None
      else Some (snd (pr_itor_first \<lparr> itor_tree = tree, itor_node = None \<rparr>)))"

definition pr_itor_key :: "pr_itor \<Rightarrow> ptr" where
  "pr_itor_key itor = (case itor_node itor of Some n \<Rightarrow> loc_key n | None \<Rightarrow> NULL)"

definition pr_itor_data :: "pr_itor \<Rightarrow> ptr" where
  "pr_itor_data itor = (case itor_node itor of Some n \<Rightarrow> loc_datum n | None \<Rightarrow> NULL)"

definition pr_itor_cdata :: "pr_itor \<Rightarrow> ptr" where
  "pr_itor_cdata itor = (case itor_node itor of Some n \<Rightarrow> loc_datum n | None \<Rightarrow> NULL)"

text \<open>
  The caller's loop of the ordering property: position the iterator with
  \<^verbatim>\<open>pr_itor_first\<close>, then read the key and call \<^verbatim>\<open>pr_itor_next\<close> for as long as the
  iterator is valid. \<open>forward_keys\<close> is the list of the keys read.
\<close>

function forward_loop :: "pr_itor \<Rightarrow> ptr list \<Rightarrow> ptr list" where
  "forward_loop itor keys =
     (if pr_itor_valid itor = 0 then keys
      else forward_loop (snd (pr_itor_next itor)) (keys @ [pr_itor_key itor]))"
  by pat_completeness auto
termination
  by (relation "measure (\<lambda>(itor, keys). loc_rest (itor_node itor))")
     (auto simp: pr_itor_valid_def RETVALID_def pr_itor_next_def loc_rest_node_next [symmetric]
           split: if_splits)

declare forward_loop.simps [simp del]

definition forward_keys :: "pr_tree \<Rightarrow> ptr list" where
  "forward_keys tree =
     forward_loop (snd (pr_itor_first \<lparr> itor_tree = tree, itor_node = None \<rparr>)) []"

subsection \<open>Sequences of operations\<close>

datatype pr_op =
    Insert ptr ptr int bool
  | Probe ptr ptr bool
  | Remove ptr
  | Empty

fun apply_op :: "pr_tree \<Rightarrow> pr_op \<Rightarrow> pr_tree option" where
  "apply_op tree (Insert k d overwrite malloc_ok) =
     map_option snd (pr_tree_insert tree k d overwrite malloc_ok)"
| "apply_op tree (Probe k slot malloc_ok) =
     map_option (\<lambda>(rv, slot', tree'). tree') (pr_tree_probe tree k slot malloc_ok)"
| "apply_op tree (Remove k) = map_option snd (pr_tree_remove tree k)"
| "apply_op tree Empty = Some (snd (pr_tree_empty tree))"

fun run_ops :: "pr_tree \<Rightarrow> pr_op list \<Rightarrow> pr_tree option" where
  "run_ops tree [] = Some tree"
| "run_ops tree (x # xs) =
     (case apply_op tree x of None \<Rightarrow> None | Some tree' \<Rightarrow> run_ops tree' xs)"

text \<open>
  A reachable tree is what some sequence of operations makes of a tree just created.
\<close>

definition reachable :: "pr_tree \<Rightarrow> bool" where
  "reachable tree \<longleftrightarrow>
     (\<exists>cmp del tree0 ops. pr_tree_new True cmp del = Some tree0 \<and> run_ops tree0 ops = Some tree)"

subsection \<open>The invariants of the data model\<close>

text \<open>The weight of every node is the sum of the weights of its children.\<close>

fun weight_inv :: "pr_node \<Rightarrow> bool" where
  "weight_inv Null = True"
| "weight_inv (Node l k d w r) \<longleftrightarrow> w = WEIGHT l + WEIGHT r \<and> weight_inv l \<and> weight_inv r"

text \<open>
  The path-reduction balance condition at one node with children \<open>l\<close> and \<open>r\<close>, and at
  every node of a subtree.
\<close>

definition balanced_at :: "pr_node \<Rightarrow> pr_node \<Rightarrow> bool" where
  "balanced_at l r =
     (if WEIGHT r > WEIGHT l then
        (case r of Null \<Rightarrow> True
         | Node rl rk rd rw rr \<Rightarrow> WEIGHT rr \<le> WEIGHT l \<and> WEIGHT rl \<le> WEIGHT l)
      else if WEIGHT l > WEIGHT r then
        (case l of Null \<Rightarrow> True
         | Node ll lk ld lw lr \<Rightarrow> WEIGHT ll \<le> WEIGHT r \<and> WEIGHT lr \<le> WEIGHT r)
      else True)"

fun balanced :: "pr_node \<Rightarrow> bool" where
  "balanced Null = True"
| "balanced (Node l k d w r) \<longleftrightarrow> balanced_at l r \<and> balanced l \<and> balanced r"

text \<open>
  What the tree needs of a comparator: the sign of \<open>cmp a b\<close> is a strict weak order
  on the keys.
\<close>

definition cmp_ok :: "(ptr \<Rightarrow> ptr \<Rightarrow> int) \<Rightarrow> bool" where
  "cmp_ok cmp \<longleftrightarrow>
     (\<forall>a b. cmp a b < 0 \<longleftrightarrow> cmp b a > 0) \<and>
     (\<forall>a b c. cmp a b < 0 \<and> cmp b c < 0 \<longrightarrow> cmp a c < 0) \<and>
     (\<forall>a b c. cmp a b = 0 \<and> cmp b c < 0 \<longrightarrow> cmp a c < 0) \<and>
     (\<forall>a b c. cmp a b < 0 \<and> cmp b c = 0 \<longrightarrow> cmp a c < 0)"

text \<open>
  The key/datum pairs of a subtree in in-order sequence, and the search-tree order: the
  keys are strictly ascending for the comparator.
\<close>

fun inorder :: "pr_node \<Rightarrow> (ptr \<times> ptr) list" where
  "inorder Null = []"
| "inorder (Node l k d w r) = inorder l @ (k, d) # inorder r"

definition ordered :: "(ptr \<Rightarrow> ptr \<Rightarrow> int) \<Rightarrow> pr_node \<Rightarrow> bool" where
  "ordered cmp t \<longleftrightarrow> sorted_wrt (\<lambda>a b. cmp a b < 0) (map fst (inorder t))"

text \<open>A key is present when the key of some node compares equal to it.\<close>

definition present :: "(ptr \<Rightarrow> ptr \<Rightarrow> int) \<Rightarrow> ptr \<Rightarrow> pr_node \<Rightarrow> bool" where
  "present cmp k t \<longleftrightarrow> list_ex (\<lambda>x. cmp k (fst x) = 0) (inorder t)"

text \<open>
  The in-order sequence around a node: what the parent chain puts before the subtree of
  the node and after it.
\<close>

fun frames_before :: "frame list \<Rightarrow> (ptr \<times> ptr) list" where
  "frames_before [] = []"
| "frames_before (LeftOf k d w r # fs) = frames_before fs"
| "frames_before (RightOf l k d w # fs) = frames_before fs @ inorder l @ [(k, d)]"

fun frames_after :: "frame list \<Rightarrow> (ptr \<times> ptr) list" where
  "frames_after [] = []"
| "frames_after (LeftOf k d w r # fs) = (k, d) # inorder r @ frames_after fs"
| "frames_after (RightOf l k d w # fs) = frames_after fs"

text \<open>
  For a node pointer: the tree it points into, and the in-order sequence before and
  after the node.
\<close>

fun loc_root :: "pr_loc \<Rightarrow> pr_node" where
  "loc_root (Loc l k d w r parents) = plug (Node l k d w r) parents"

fun loc_before :: "pr_loc \<Rightarrow> (ptr \<times> ptr) list" where
  "loc_before (Loc l k d w r parents) = frames_before parents @ inorder l"

fun loc_after :: "pr_loc \<Rightarrow> (ptr \<times> ptr) list" where
  "loc_after (Loc l k d w r parents) = inorder r @ frames_after parents"

text \<open>
  \<open>same_shape t t'\<close>: \<open>t'\<close> is a node that carries the weight and the in-order
  sequence of \<open>t\<close>, with correct weights throughout. It is what a subtree is to the rest
  of the tree after rotations inside it.
\<close>

definition same_shape :: "pr_node \<Rightarrow> pr_node \<Rightarrow> bool" where
  "same_shape t t' \<longleftrightarrow>
     t' \<noteq> Null \<and> weight_inv t' \<and> WEIGHT t' = WEIGHT t \<and> inorder t' = inorder t"

text \<open>
  \<open>bounds cmp k ps\<close>: along the parent chain \<open>ps\<close> every key that precedes the place
  the chain leads to is less than \<open>k\<close>, and every key that follows is greater.
\<close>

definition bounds :: "(ptr \<Rightarrow> ptr \<Rightarrow> int) \<Rightarrow> ptr \<Rightarrow> frame list \<Rightarrow> bool" where
  "bounds cmp k ps \<longleftrightarrow>
     (\<forall>x \<in> set (frames_before ps). cmp (fst x) k < 0) \<and>
     (\<forall>x \<in> set (frames_after ps). cmp k (fst x) < 0)"

text \<open>
  What every reachable tree satisfies, whatever the comparator: the weights are correct
  and \<open>count\<close> is the number of nodes, as far as 32 bits tell.
\<close>

definition tree_inv :: "pr_tree \<Rightarrow> bool" where
  "tree_inv tree \<longleftrightarrow> weight_inv (root tree) \<and> count tree = of_nat (size (root tree))"

text \<open>
  The outcome of the loop of \<^verbatim>\<open>pr_tree_remove\<close>, started at a node of a tree with correct
  weights whose subtree is ordered: \<open>removed tree k node ps res\<close> says that \<open>res\<close> is
  the return value 0 with the tree in which one node whose key compares equal to \<open>k\<close>
  has left the subtree.
\<close>

definition removed :: "pr_tree \<Rightarrow> ptr \<Rightarrow> pr_node \<Rightarrow> frame list \<Rightarrow> (int \<times> pr_tree) option \<Rightarrow> bool" where
  "removed tree k node ps res \<longleftrightarrow>
     (\<exists>t' nk nd.
        res = Some (0, tree\<lparr> root := t', count := count tree - 1,
                             deleted := (if del_func tree then deleted tree @ [(nk, nd)]
                                         else deleted tree) \<rparr>)
        \<and> weight_inv t' \<and> WEIGHT t' + 1 = WEIGHT (plug node ps)
        \<and> inorder t' = frames_before ps
              @ filter (\<lambda>x. key_cmp tree k (fst x) \<noteq> 0) (inorder node) @ frames_after ps
        \<and> (nk, nd) \<in> set (inorder node) \<and> key_cmp tree k nk = 0)"

subsection \<open>Two concrete trees\<close>

text \<open>
  The tree that the keys 2, 1, 3, 4 (with data 20, 10, 30, 40) inserted in this order
  give under \<^verbatim>\<open>dict_ptr_cmp\<close>, and the tree with the one key 7 stored with a null
  datum.
\<close>

definition example_tree :: pr_tree where
  "example_tree =
     \<lparr> root = Node (Node Null 1 10 2 Null) 2 20 5 (Node Null 3 30 3 (Node Null 4 40 2 Null)),
       count = 4, key_cmp = dict_ptr_cmp, del_func = False, deleted = [] \<rparr>"

definition null_datum_tree :: pr_tree where
  "null_datum_tree =
     \<lparr> root = Node Null 7 0 2 Null,
       count = 1, key_cmp = dict_ptr_cmp, del_func = False, deleted = [] \<rparr>"

section \<open>The balance condition\<close>

text \<open>
  C1. The claim: in every tree reachable by insert, remove and clear, every node
  satisfies the path-reduction balance condition after each insert and each remove, also
  along the ancestor chain after the single-child splice of remove, which decrements
  the weights and runs no fixup. The code does not keep that condition. Inserting the
  keys 2, 1, 3, 4 into a new tree gives a tree that is balanced at every node; removing
  key 1 then splices out a leaf, decrements the weight of the root and returns, and the
  root is left with a null left child (weight 1) and a right child whose own right child
  has weight 2.
\<close>

theorem remove_leaves_unbalanced_node:
  "run_ops \<lparr> root = Null, count = 0, key_cmp = dict_ptr_cmp, del_func = False, deleted = [] \<rparr>
     [Insert 2 20 0 True, Insert 1 10 0 True, Insert 3 30 0 True, Insert 4 40 0 True]
   = Some \<lparr> root = Node (Node Null 1 10 2 Null) 2 20 5 (Node Null 3 30 3 (Node Null 4 40 2 Null)),
            count = 4, key_cmp = dict_ptr_cmp, del_func = False, deleted = [] \<rparr>
   \<and> balanced (Node (Node Null 1 10 2 Null) 2 20 5 (Node Null 3 30 3 (Node Null 4 40 2 Null)))
   \<and> pr_tree_remove
        \<lparr> root = Node (Node Null 1 10 2 Null) 2 20 5 (Node Null 3 30 3 (Node Null 4 40 2 Null)),
          count = 4, key_cmp = dict_ptr_cmp, del_func = False, deleted = [] \<rparr> 1
      = Some (0, \<lparr> root = Node Null 2 20 4 (Node Null 3 30 3 (Node Null 4 40 2 Null)),
                   count = 3, key_cmp = dict_ptr_cmp, del_func = False, deleted = [] \<rparr>)
   \<and> \<not> balanced (Node Null 2 20 4 (Node Null 3 30 3 (Node Null 4 40 2 Null)))"
  by (simp add: pr_tree_insert_def pr_tree_remove_def node_new_def dict_ptr_cmp_def NULL_def
        splice_def balanced_at_def)

text \<open>
  Insertions alone do not keep the condition either: after a double rotation
  \<^verbatim>\<open>FIXUP\<close> goes on at \<^verbatim>\<open>temp->rlink\<close> and at \<^verbatim>\<open>node\<close>, and neither the
  macro nor the loop of \<^verbatim>\<open>pr_tree_insert\<close> looks again at \<^verbatim>\<open>temp\<close>, which has
  moved down and been given a new left subtree. The last of the eighteen insertions
  below makes such a rotation at the root, with the node of key 24 as \<^verbatim>\<open>temp\<close>:
  that node is left with a left child of weight 3 and a right child of weight 6 whose
  left child has weight 4.
\<close>

lemma inserts_leave_unbalanced_node:
  "run_ops \<lparr> root = Null, count = 0, key_cmp = dict_ptr_cmp, del_func = False, deleted = [] \<rparr>
     (map (\<lambda>k. Insert k 0 0 True)
        [5, 3, 28, 8, 30, 17, 14, 1, 24, 4, 6, 22, 20, 31, 11, 25, 29, 9])
   = Some \<lparr> root =
        Node
          (Node
            (Node (Node Null 1 0 2 Null) 3 0 6
              (Node (Node Null 4 0 2 Null) 5 0 4 (Node Null 6 0 2 Null)))
            8 0 10 (Node (Node Null 9 0 2 Null) 11 0 4 (Node Null 14 0 2 Null)))
          17 0 19
          (Node (Node (Node Null 20 0 2 Null) 22 0 3 Null) 24 0 9
            (Node (Node (Node Null 25 0 2 Null) 28 0 4 (Node Null 29 0 2 Null)) 30 0 6
              (Node Null 31 0 2 Null))),
        count = 18, key_cmp = dict_ptr_cmp, del_func = False, deleted = [] \<rparr>
   \<and> \<not> balanced_at (Node (Node Null 20 0 2 Null) 22 0 3 Null)
         (Node (Node (Node Null 25 0 2 Null) 28 0 4 (Node Null 29 0 2 Null)) 30 0 6
            (Node Null 31 0 2 Null))"
  by (simp add: pr_tree_insert_def node_new_def dict_ptr_cmp_def fixup.simps Let_def
        balanced_at_def)

section \<open>Weights and rotations\<close>


lemma WEIGHT_pos: "weight_inv t \<Longrightarrow> 0 < WEIGHT t"
  by (induction t) auto

lemma WEIGHT_le1_Null: "weight_inv t \<Longrightarrow> WEIGHT t \<le> 1 \<Longrightarrow> t = Null"
  using WEIGHT_pos [of "llink t"] WEIGHT_pos [of "rlink t"] by (cases t) auto

declare fixup.simps [simp del]

lemma fixup_LL:
  "WEIGHT l < rw \<Longrightarrow> WEIGHT l < WEIGHT rr \<Longrightarrow>
   fixup (Node l k d w (Node rl rk rd rw rr)) =
     (case fixup (Node l k d (WEIGHT l + WEIGHT rl) rl) of
        None \<Rightarrow> None
      | Some n \<Rightarrow> Some (Node n rk rd (WEIGHT l + WEIGHT rl + WEIGHT rr) rr))"
  by (simp add: Let_def fixup.simps(2) [of l k d w "Node rl rk rd rw rr"])

lemma fixup_RL:
  "WEIGHT l < rw \<Longrightarrow> \<not> WEIGHT l < WEIGHT rr \<Longrightarrow> WEIGHT l < lw \<Longrightarrow>
   fixup (Node l k d w (Node (Node a lk ld lw c) rk rd rw rr)) =
     (case (if rr \<noteq> Null then fixup rr else Some rr) of
        None \<Rightarrow> None
      | Some e' \<Rightarrow>
          (case fixup (Node l k d (WEIGHT l + WEIGHT a) a) of
             None \<Rightarrow> None
           | Some n \<Rightarrow>
               Some (Node n lk ld (WEIGHT l + WEIGHT a + (WEIGHT c + WEIGHT rr))
                       (Node c rk rd (WEIGHT c + WEIGHT rr) e'))))"
  by (simp add: Let_def fixup.simps(2) [of l k d w "Node (Node a lk ld lw c) rk rd rw rr"])

lemma fixup_RR:
  "lw > WEIGHT r \<Longrightarrow> WEIGHT ll > WEIGHT r \<Longrightarrow>
   fixup (Node (Node ll lk ld lw lr) k d w r) =
     (case fixup (Node lr k d (WEIGHT lr + WEIGHT r) r) of
        None \<Rightarrow> None
      | Some n \<Rightarrow> Some (Node ll lk ld (WEIGHT ll + (WEIGHT lr + WEIGHT r)) n))"
  by (simp add: Let_def fixup.simps(2) [of "Node ll lk ld lw lr" k d w r])

lemma fixup_LR:
  "lw > WEIGHT r \<Longrightarrow> \<not> WEIGHT ll > WEIGHT r \<Longrightarrow> rw > WEIGHT r \<Longrightarrow>
   fixup (Node (Node ll lk ld lw (Node a rk rd rw c)) k d w r) =
     (case (if ll \<noteq> Null then fixup ll else Some ll) of
        None \<Rightarrow> None
      | Some a' \<Rightarrow>
          (case fixup (Node c k d (WEIGHT c + WEIGHT r) r) of
             None \<Rightarrow> None
           | Some n \<Rightarrow>
               Some (Node (Node a' lk ld (WEIGHT ll + WEIGHT a) a) rk rd
                       (WEIGHT ll + WEIGHT a + (WEIGHT c + WEIGHT r)) n)))"
  by (simp add: Let_def fixup.simps(2) [of "Node ll lk ld lw (Node a rk rd rw c)" k d w r])

lemma fixup_stop:
  "(WEIGHT r > WEIGHT l \<longrightarrow> (\<exists>rl rk rd rw rr. r = Node rl rk rd rw rr \<and> \<not> WEIGHT rr > WEIGHT l \<and> \<not> WEIGHT rl > WEIGHT l)) \<Longrightarrow>
   (WEIGHT l > WEIGHT r \<longrightarrow> (\<exists>ll lk ld lw lr. l = Node ll lk ld lw lr \<and> \<not> WEIGHT ll > WEIGHT r \<and> \<not> WEIGHT lr > WEIGHT r)) \<Longrightarrow>
   fixup (Node l k d w r) = Some (Node l k d w r)"
  by (auto simp add: Let_def fixup.simps(2) [of l k d w r])

lemma same_shapeD:
  "same_shape t t' \<Longrightarrow> \<exists>l k d r. t' = Node l k d (WEIGHT t) r \<and> weight_inv l \<and> weight_inv r
     \<and> WEIGHT t = WEIGHT l + WEIGHT r \<and> inorder t = inorder l @ (k, d) # inorder r"
  by (cases t') (auto simp: same_shape_def)

lemma fixup_ok:
  "weight_inv t \<Longrightarrow> t \<noteq> Null \<Longrightarrow> \<exists>t'. fixup t = Some t' \<and> same_shape t t'"
proof (induction t rule: measure_induct_rule [where f = size])
  case (less t)
  from less.prems obtain l k d w r where t: "t = Node l k d w r"
    by (cases t) auto
  have wl: "weight_inv l" and wr: "weight_inv r" and w: "w = WEIGHT l + WEIGHT r"
    using less.prems t by auto
  have IH: "\<And>u. size u < size t \<Longrightarrow> weight_inv u \<Longrightarrow> u \<noteq> Null \<Longrightarrow>
              \<exists>u'. fixup u = Some u' \<and> same_shape u u'"
    using less.IH by blast
  consider
      (LL) rl rk rd rw rr where "r = Node rl rk rd rw rr" "WEIGHT l < rw" "WEIGHT l < WEIGHT rr"
    | (RL) a lk ld lw c rk rd rw rr where "r = Node (Node a lk ld lw c) rk rd rw rr"
        "WEIGHT l < rw" "\<not> WEIGHT l < WEIGHT rr" "WEIGHT l < lw"
    | (RR) ll lk ld lw lr where "l = Node ll lk ld lw lr" "WEIGHT r < lw" "WEIGHT r < WEIGHT ll"
    | (LR) ll lk ld lw a rk rd rw c where "l = Node ll lk ld lw (Node a rk rd rw c)"
        "WEIGHT r < lw" "\<not> WEIGHT r < WEIGHT ll" "WEIGHT r < rw"
    | (stop) "WEIGHT r > WEIGHT l \<longrightarrow> (\<exists>rl rk rd rw rr. r = Node rl rk rd rw rr
                 \<and> \<not> WEIGHT rr > WEIGHT l \<and> \<not> WEIGHT rl > WEIGHT l)"
             "WEIGHT l > WEIGHT r \<longrightarrow> (\<exists>ll lk ld lw lr. l = Node ll lk ld lw lr
                 \<and> \<not> WEIGHT ll > WEIGHT r \<and> \<not> WEIGHT lr > WEIGHT r)"
  proof -
    have pos: "0 < WEIGHT l" "0 < WEIGHT r"
      using wl wr by (simp_all add: WEIGHT_pos)
    show thesis
    proof (cases "WEIGHT r > WEIGHT l")
      case True
      then obtain rl rk rd rw rr where r: "r = Node rl rk rd rw rr"
        using pos by (cases r) auto
      show thesis
      proof (cases "WEIGHT l < WEIGHT rr")
        case True
        then show thesis using LL r \<open>WEIGHT r > WEIGHT l\<close> by simp
      next
        case nrr: False
        show thesis
        proof (cases "WEIGHT l < WEIGHT rl")
          case True
          then obtain a lk ld lw c where "rl = Node a lk ld lw c"
            using pos by (cases rl) auto
          then show thesis using RL r nrr True \<open>WEIGHT r > WEIGHT l\<close> by simp
        next
          case False
          then show thesis using stop r nrr \<open>WEIGHT r > WEIGHT l\<close> by simp
        qed
      qed
    next
      case nr: False
      show thesis
      proof (cases "WEIGHT l > WEIGHT r")
        case True
        then obtain ll lk ld lw lr where l: "l = Node ll lk ld lw lr"
          using pos by (cases l) auto
        show thesis
        proof (cases "WEIGHT r < WEIGHT ll")
          case True
          then show thesis using RR l \<open>WEIGHT l > WEIGHT r\<close> by simp
        next
          case nll: False
          show thesis
          proof (cases "WEIGHT r < WEIGHT lr")
            case True
            then obtain a rk rd rw c where "lr = Node a rk rd rw c"
              using pos by (cases lr) auto
            then show thesis using LR l nll True \<open>WEIGHT l > WEIGHT r\<close> by simp
          next
            case False
            then show thesis using stop l nll nr \<open>WEIGHT l > WEIGHT r\<close> by simp
          qed
        qed
      next
        case False
        then show thesis using stop nr by simp
      qed
    qed
  qed
  then show ?case
  proof cases
    case LL
    let ?n = "Node l k d (WEIGHT l + WEIGHT rl) rl"
    have "weight_inv ?n" using wl wr LL by simp
    with IH [of ?n] obtain n where n: "fixup ?n = Some n" "same_shape ?n n"
      using t LL by auto
    show ?thesis
      using n wr LL t w by (auto simp: fixup_LL same_shape_def)
  next
    case RL
    let ?n = "Node l k d (WEIGHT l + WEIGHT a) a"
    have "weight_inv ?n" using wl wr RL by simp
    with IH [of ?n] obtain n where n: "fixup ?n = Some n" "same_shape ?n n"
      using t RL by auto
    have "\<exists>e'. (if rr \<noteq> Null then fixup rr else Some rr) = Some e'
            \<and> weight_inv e' \<and> WEIGHT e' = WEIGHT rr \<and> inorder e' = inorder rr"
      using IH [of rr] wr RL t by (auto simp: same_shape_def)
    then obtain e' where e: "(if rr \<noteq> Null then fixup rr else Some rr) = Some e'"
        "weight_inv e'" "WEIGHT e' = WEIGHT rr" "inorder e' = inorder rr"
      by blast
    show ?thesis
      using n e wr RL t w by (simp add: fixup_RL same_shape_def)
  next
    case RR
    let ?n = "Node lr k d (WEIGHT lr + WEIGHT r) r"
    have "weight_inv ?n" using wl wr RR by simp
    with IH [of ?n] obtain n where n: "fixup ?n = Some n" "same_shape ?n n"
      using t RR by auto
    show ?thesis
      using n wl RR t w by (auto simp: fixup_RR same_shape_def)
  next
    case LR
    let ?n = "Node c k d (WEIGHT c + WEIGHT r) r"
    have "weight_inv ?n" using wl wr LR by simp
    with IH [of ?n] obtain n where n: "fixup ?n = Some n" "same_shape ?n n"
      using t LR by auto
    have "\<exists>e'. (if ll \<noteq> Null then fixup ll else Some ll) = Some e'
            \<and> weight_inv e' \<and> WEIGHT e' = WEIGHT ll \<and> inorder e' = inorder ll"
      using IH [of ll] wl LR t by (auto simp: same_shape_def)
    then obtain e' where e: "(if ll \<noteq> Null then fixup ll else Some ll) = Some e'"
        "weight_inv e'" "WEIGHT e' = WEIGHT ll" "inorder e' = inorder ll"
      by blast
    show ?thesis
      using n e wl LR t w by (simp add: fixup_LR same_shape_def)
  next
    case stop
    then show ?thesis
      using less.prems t by (simp add: fixup_stop same_shape_def)
  qed
qed

section \<open>Insertion\<close>

lemma inorder_attach:
  "inorder (attach f t) = frames_before [f] @ inorder t @ frames_after [f]"
  by (cases f) auto

lemma inorder_plug: "inorder (plug t ps) = frames_before ps @ inorder t @ frames_after ps"
  by (induction ps arbitrary: t rule: frames_before.induct) auto

lemma weight_inv_plugD: "weight_inv (plug t ps) \<Longrightarrow> weight_inv t"
proof (induction ps arbitrary: t)
  case Nil
  then show ?case by simp
next
  case (Cons f ps)
  then have "weight_inv (attach f t)" by simp
  then show ?case by (cases f) auto
qed

lemma size_inorder: "size t = length (inorder t)"
  by (induction t) auto

lemma descend_plug: "descend cmp k t ps = (n, ps') \<Longrightarrow> plug n ps' = plug t ps"
  by (induction cmp k t ps rule: descend.induct) (auto simp: Let_def split: if_splits)

lemma search_loop_descend:
  "search_loop cmp k t = (case fst (descend cmp k t ps) of Null \<Rightarrow> NULL | Node l nk nd w r \<Rightarrow> nd)"
  by (induction cmp k t ps rule: descend.induct) (auto simp: Let_def)

lemma descend_Node_eq:
  "descend cmp k t ps = (Node l nk nd w r, ps') \<Longrightarrow> cmp k nk = 0"
  by (induction cmp k t ps rule: descend.induct) (auto simp: Let_def split: if_splits)


lemma insert_fixup_ok:
  "weight_inv (plug t0 ps) \<Longrightarrow> t \<noteq> Null \<Longrightarrow> weight_inv t \<Longrightarrow> WEIGHT t = WEIGHT t0 + 1 \<Longrightarrow>
   \<exists>t'. insert_fixup t ps = Some t' \<and> t' \<noteq> Null \<and> weight_inv t'
        \<and> WEIGHT t' = WEIGHT (plug t0 ps) + 1
        \<and> inorder t' = frames_before ps @ inorder t @ frames_after ps"
proof (induction ps arbitrary: t t0)
  case Nil
  then show ?case by simp
next
  case (Cons f ps)
  let ?a = "attach f t0" and ?b = "incr_weight (attach f t)"
  have u0: "weight_inv ?a" using Cons.prems(1) by (simp add: weight_inv_plugD)
  have u: "weight_inv ?b" "?b \<noteq> Null" "WEIGHT ?b = WEIGHT ?a + 1"
      "inorder ?b = frames_before [f] @ inorder t @ frames_after [f]"
    using u0 Cons.prems(2,3,4) by - (cases f; simp)+
  from fixup_ok [OF u(1,2)] obtain u' where u': "fixup ?b = Some u'" "same_shape ?b u'"
    by blast
  have "\<exists>t'. insert_fixup u' ps = Some t' \<and> t' \<noteq> Null \<and> weight_inv t'
        \<and> WEIGHT t' = WEIGHT (plug ?a ps) + 1
        \<and> inorder t' = frames_before ps @ inorder u' @ frames_after ps"
    using Cons.prems(1) u' u by (intro Cons.IH) (auto simp: same_shape_def)
  then show ?case
    using u' u(4) by (cases f) (auto simp: same_shape_def)
qed

section \<open>The search-tree order\<close>

lemma cmp_ok_flip: "cmp_ok cmp \<Longrightarrow> cmp a b < 0 \<longleftrightarrow> cmp b a > 0"
  unfolding cmp_ok_def by blast

lemma cmp_ok_refl: "cmp_ok cmp \<Longrightarrow> cmp a a = 0"
proof -
  assume "cmp_ok cmp"
  then have "cmp a a < 0 \<longleftrightarrow> cmp a a > 0" unfolding cmp_ok_def by blast
  then show ?thesis by linarith
qed

lemma cmp_ok_sym: "cmp_ok cmp \<Longrightarrow> cmp a b = 0 \<Longrightarrow> cmp b a = 0"
proof -
  assume "cmp_ok cmp" "cmp a b = 0"
  then have "\<not> cmp b a < 0" "\<not> cmp b a > 0"
    using cmp_ok_flip [of cmp a b] cmp_ok_flip [of cmp b a] by simp_all
  then show ?thesis by linarith
qed

lemma cmp_ok_trans: "cmp_ok cmp \<Longrightarrow> cmp a b < 0 \<Longrightarrow> cmp b c < 0 \<Longrightarrow> cmp a c < 0"
  unfolding cmp_ok_def by blast

lemma cmp_ok_eq_lt: "cmp_ok cmp \<Longrightarrow> cmp a b = 0 \<Longrightarrow> cmp b c < 0 \<Longrightarrow> cmp a c < 0"
  unfolding cmp_ok_def by blast

lemma cmp_ok_lt_eq: "cmp_ok cmp \<Longrightarrow> cmp a b < 0 \<Longrightarrow> cmp b c = 0 \<Longrightarrow> cmp a c < 0"
  unfolding cmp_ok_def by blast

lemma cmp_ok_lt_neq: "cmp_ok cmp \<Longrightarrow> cmp a b < 0 \<Longrightarrow> cmp b a \<noteq> 0"
  using cmp_ok_flip [of cmp a b] by simp

lemma cmp_ok_dict_ptr_cmp: "cmp_ok dict_ptr_cmp"
  by (auto simp: cmp_ok_def dict_ptr_cmp_def split: if_splits)

lemma ordered_Node:
  "ordered cmp (Node l k d w r) \<longleftrightarrow>
     ordered cmp l \<and> ordered cmp r \<and>
     (\<forall>x \<in> set (inorder l). cmp (fst x) k < 0 \<and> (\<forall>y \<in> set (inorder r). cmp (fst x) (fst y) < 0)) \<and>
     (\<forall>y \<in> set (inorder r). cmp k (fst y) < 0)"
  by (auto simp: ordered_def sorted_wrt_append)

lemma present_Node:
  "present cmp k (Node l nk nd w r) \<longleftrightarrow> present cmp k l \<or> cmp k nk = 0 \<or> present cmp k r"
  by (auto simp: present_def list_ex_iff)

lemma present_Null [simp]: "\<not> present cmp k Null"
  by (simp add: present_def)

lemma not_present_left:
  "cmp_ok cmp \<Longrightarrow> \<forall>x \<in> set (inorder t). cmp (fst x) k < 0 \<Longrightarrow> \<not> present cmp k t"
  by (auto simp: present_def list_ex_iff dest: cmp_ok_lt_neq)

lemma not_present_right:
  "cmp_ok cmp \<Longrightarrow> \<forall>x \<in> set (inorder t). cmp k (fst x) < 0 \<Longrightarrow> \<not> present cmp k t"
  by (auto simp: present_def list_ex_iff)

lemma find_app:
  "find P (xs @ ys) = (case find P xs of None \<Rightarrow> find P ys | Some x \<Rightarrow> Some x)"
  by (induction xs) auto

lemma bounds_LeftOf:
  assumes "cmp_ok cmp" "ordered cmp (Node l nk nd w r)" "bounds cmp k ps" "cmp k nk < 0"
  shows "bounds cmp k (LeftOf nk nd w r # ps)"
proof -
  have "cmp k (fst y) < 0" if "y \<in> set (inorder r)" for y
    using cmp_ok_trans [OF assms(1,4), of "fst y"] assms(2) that by (simp add: ordered_Node)
  then show ?thesis using assms(3,4) by (auto simp: bounds_def)
qed

lemma bounds_RightOf:
  assumes "cmp_ok cmp" "ordered cmp (Node l nk nd w r)" "bounds cmp k ps" "cmp k nk > 0"
  shows "bounds cmp k (RightOf l nk nd w # ps)"
proof -
  have nk: "cmp nk k < 0" using assms(1,4) by (simp add: cmp_ok_flip)
  have "cmp (fst x) k < 0" if "x \<in> set (inorder l)" for x
    using cmp_ok_trans [OF assms(1) _ nk, of "fst x"] assms(2) that by (simp add: ordered_Node)
  then show ?thesis using assms(3) nk by (auto simp: bounds_def)
qed

lemma descend_bounds:
  "cmp_ok cmp \<Longrightarrow> ordered cmp t \<Longrightarrow> bounds cmp k ps \<Longrightarrow> descend cmp k t ps = (n, ps') \<Longrightarrow>
   bounds cmp k ps'"
proof (induction cmp k t ps rule: descend.induct)
  case (1 cmp k parents)
  then show ?case by simp
next
  case (2 cmp k l nk nd w r parents)
  consider (lt) "cmp k nk < 0" | (gt) "cmp k nk > 0" | (eq) "cmp k nk = 0"
    by linarith
  then show ?case
  proof cases
    case lt
    have "bounds cmp k (LeftOf nk nd w r # parents)"
      using bounds_LeftOf [OF 2(3,4,5) lt] .
    moreover have "ordered cmp l" using 2(4) by (simp add: ordered_Node)
    moreover have "descend cmp k l (LeftOf nk nd w r # parents) = (n, ps')"
      using 2(6) lt by simp
    ultimately show ?thesis using 2(1) [OF refl lt 2(3)] by simp
  next
    case gt
    have "bounds cmp k (RightOf l nk nd w # parents)"
      using bounds_RightOf [OF 2(3,4,5) gt] .
    moreover have "ordered cmp r" using 2(4) by (simp add: ordered_Node)
    moreover have "descend cmp k r (RightOf l nk nd w # parents) = (n, ps')"
      using 2(6) gt by simp
    moreover have "\<not> cmp k nk < 0" using gt by simp
    ultimately show ?thesis using 2(2) [OF refl _ gt 2(3)] by simp
  next
    case eq
    then show ?thesis using 2(5,6) by simp
  qed
qed

lemma descend_present:
  assumes "cmp_ok cmp" "ordered cmp t" "descend cmp k t [] = (n, ps)"
  shows "present cmp k t \<longleftrightarrow> n \<noteq> Null"
proof (cases n)
  case Null
  have b: "bounds cmp k ps"
    using descend_bounds [OF assms(1,2) _ assms(3)] by (simp add: bounds_def)
  have io: "inorder t = frames_before ps @ frames_after ps"
    using descend_plug [OF assms(3)] inorder_plug [of Null ps] Null by simp
  have "cmp k (fst x) \<noteq> 0" if "x \<in> set (inorder t)" for x
  proof -
    from that io b consider "cmp (fst x) k < 0" | "cmp k (fst x) < 0"
      by (auto simp: bounds_def)
    then show ?thesis using cmp_ok_lt_neq [OF assms(1), of "fst x" k] by cases auto
  qed
  then show ?thesis
    using Null by (auto simp: present_def list_ex_iff)
next
  case (Node l nk nd w r)
  have "cmp k nk = 0" using assms(3) Node by (auto dest: descend_Node_eq)
  moreover have "(nk, nd) \<in> set (inorder t)"
    using descend_plug [OF assms(3)] inorder_plug [of n ps] Node by simp
  ultimately show ?thesis using Node by (force simp: present_def list_ex_iff)
qed

lemma search_loop_find:
  "cmp_ok cmp \<Longrightarrow> ordered cmp t \<Longrightarrow>
   search_loop cmp k t =
     (case find (\<lambda>x. cmp k (fst x) = 0) (inorder t) of None \<Rightarrow> NULL | Some x \<Rightarrow> snd x)"
proof (induction t)
  case Null
  then show ?case by simp
next
  case (Node l nk nd w r)
  let ?P = "\<lambda>x. cmp k (fst x) = 0"
  note ok = Node.prems(1)
  have ol: "ordered cmp l" and or: "ordered cmp r"
    and ll: "\<And>x. x \<in> set (inorder l) \<Longrightarrow> cmp (fst x) nk < 0"
    and rr: "\<And>y. y \<in> set (inorder r) \<Longrightarrow> cmp nk (fst y) < 0"
    using Node.prems(2) by (simp_all add: ordered_Node)
  consider (lt) "cmp k nk < 0" | (gt) "cmp k nk > 0" | (eq) "cmp k nk = 0"
    by linarith
  then show ?case
  proof cases
    case lt
    have "\<not> ?P y" if "y \<in> set (inorder r)" for y
      using cmp_ok_trans [OF ok lt rr [OF that]] by simp
    then have "find ?P ((nk, nd) # inorder r) = None"
      using lt by (auto simp: find_None_iff)
    then show ?thesis
      using Node.IH(1) [OF ok ol] lt by (simp add: find_app split: option.splits)
  next
    case gt
    then have nk: "cmp nk k < 0" using ok by (simp add: cmp_ok_flip)
    have "\<not> ?P x" if "x \<in> set (inorder l)" for x
      using cmp_ok_lt_neq [OF ok cmp_ok_trans [OF ok ll [OF that] nk]] by simp
    then have "find ?P (inorder l) = None"
      by (auto simp: find_None_iff)
    then show ?thesis
      using Node.IH(2) [OF ok or] gt by (simp add: find_app)
  next
    case eq
    then have nk: "cmp nk k = 0" using ok by (simp add: cmp_ok_sym)
    have "\<not> ?P x" if "x \<in> set (inorder l)" for x
      using cmp_ok_lt_neq [OF ok cmp_ok_lt_eq [OF ok ll [OF that] nk]] by simp
    then have "find ?P (inorder l) = None"
      by (auto simp: find_None_iff)
    then show ?thesis
      using eq by (simp add: find_app)
  qed
qed

lemma plug_same_weight:
  "weight_inv (plug t ps) \<Longrightarrow> weight_inv t' \<Longrightarrow> WEIGHT t' = WEIGHT t \<Longrightarrow>
   weight_inv (plug t' ps) \<and> WEIGHT (plug t' ps) = WEIGHT (plug t ps)"
proof (induction ps arbitrary: t t')
  case Nil
  then show ?case by simp
next
  case (Cons f ps)
  have "weight_inv (attach f t)" using Cons.prems(1) by (simp add: weight_inv_plugD)
  then have "weight_inv (attach f t')" "WEIGHT (attach f t') = WEIGHT (attach f t)"
    using Cons.prems(2,3) by - (cases f; simp)+
  then show ?case using Cons.IH [of "attach f t" "attach f t'"] Cons.prems(1) by simp
qed

lemma insert_fixup_new:
  assumes "weight_inv (plug Null ps)"
  shows "\<exists>t'. insert_fixup (Node Null k d 2 Null) ps = Some t' \<and> t' \<noteq> Null \<and> weight_inv t'
        \<and> WEIGHT t' = WEIGHT (plug Null ps) + 1
        \<and> inorder t' = frames_before ps @ (k, d) # frames_after ps"
  using insert_fixup_ok [OF assms, of "Node Null k d 2 Null"] by simp

text \<open>The four ways \<^verbatim>\<open>pr_tree_insert\<close> returns, on a tree with correct weights and count.\<close>

lemma pr_tree_insert_cases:
  assumes "weight_inv (root tree)" "count tree = of_nat (size (root tree))"
  obtains
    (dup) l nk nd w r ps where
      "descend (key_cmp tree) k (root tree) [] = (Node l nk nd w r, ps)" "overwrite = 0"
      "pr_tree_insert tree k d overwrite m = Some (1, tree)"
  | (replace) l nk nd w r ps where
      "descend (key_cmp tree) k (root tree) [] = (Node l nk nd w r, ps)" "overwrite \<noteq> 0"
      "pr_tree_insert tree k d overwrite m =
         Some (0, tree\<lparr> root := plug (Node l k d w r) ps,
                        deleted := (if del_func tree then deleted tree @ [(nk, nd)]
                                    else deleted tree) \<rparr>)"
  | (nomem) ps where
      "descend (key_cmp tree) k (root tree) [] = (Null, ps)" "\<not> m"
      "pr_tree_insert tree k d overwrite m = Some (- 1, tree)"
  | (new) ps t' where
      "descend (key_cmp tree) k (root tree) [] = (Null, ps)" "m"
      "pr_tree_insert tree k d overwrite m = Some (0, tree\<lparr> root := t', count := count tree + 1 \<rparr>)"
      "t' \<noteq> Null" "weight_inv t'" "WEIGHT t' = WEIGHT (root tree) + 1"
      "inorder t' = frames_before ps @ (k, d) # frames_after ps"
proof -
  obtain n ps where dsc: "descend (key_cmp tree) k (root tree) [] = (n, ps)"
    by (cases "descend (key_cmp tree) k (root tree) []")
  have plug: "plug n ps = root tree" using descend_plug [OF dsc] by simp
  show thesis
  proof (cases n)
    case (Node l nk nd w r)
    show thesis
    proof (cases "overwrite = 0")
      case True
      then show thesis using dup dsc Node by (simp add: pr_tree_insert_def)
    next
      case False
      then show thesis using replace dsc Node by (simp add: pr_tree_insert_def)
    qed
  next
    case Null
    show thesis
    proof (cases m)
      case False
      then show thesis using nomem dsc Null by (simp add: pr_tree_insert_def node_new_def)
    next
      case True
      show thesis
      proof (cases ps)
        case Nil
        then have "root tree = Null" using plug Null by simp
        then have "pr_tree_insert tree k d overwrite m
            = Some (0, tree\<lparr> root := Node Null k d 2 Null, count := count tree + 1 \<rparr>)"
          using dsc Null Nil True assms(2) by (simp add: pr_tree_insert_def node_new_def)
        then show thesis
          using new [OF _ True, of ps "Node Null k d 2 Null"] dsc Null Nil \<open>root tree = Null\<close>
          by simp
      next
        case (Cons f fs)
        have "weight_inv (plug Null ps)" using plug Null assms(1) by simp
        from insert_fixup_new [OF this, of k d] obtain t' where
          t': "insert_fixup (Node Null k d 2 Null) ps = Some t'" "t' \<noteq> Null" "weight_inv t'"
            "WEIGHT t' = WEIGHT (plug Null ps) + 1"
            "inorder t' = frames_before ps @ (k, d) # frames_after ps"
          by blast
        have "pr_tree_insert tree k d overwrite m
            = Some (0, tree\<lparr> root := t', count := count tree + 1 \<rparr>)"
          using dsc Null Cons True t'(1) by (simp add: pr_tree_insert_def node_new_def)
        then show thesis
          using new [OF _ True, of ps t'] dsc Null t' plug by simp
      qed
    qed
  qed
qed

text \<open>The three ways \<^verbatim>\<open>pr_tree_probe\<close> returns, on a tree with correct weights and count.\<close>

lemma pr_tree_probe_cases:
  assumes "weight_inv (root tree)" "count tree = of_nat (size (root tree))"
  obtains
    (found) l nk nd w r ps where
      "descend (key_cmp tree) k (root tree) [] = (Node l nk nd w r, ps)"
      "pr_tree_probe tree k slot m = Some (0, nd, tree)"
  | (nomem) ps where
      "descend (key_cmp tree) k (root tree) [] = (Null, ps)" "\<not> m"
      "pr_tree_probe tree k slot m = Some (- 1, slot, tree)"
  | (new) ps t' where
      "descend (key_cmp tree) k (root tree) [] = (Null, ps)" "m"
      "pr_tree_probe tree k slot m = Some (1, slot, tree\<lparr> root := t', count := count tree + 1 \<rparr>)"
      "t' \<noteq> Null" "weight_inv t'" "WEIGHT t' = WEIGHT (root tree) + 1"
      "inorder t' = frames_before ps @ (k, slot) # frames_after ps"
proof -
  obtain n ps where dsc: "descend (key_cmp tree) k (root tree) [] = (n, ps)"
    by (cases "descend (key_cmp tree) k (root tree) []")
  have plug: "plug n ps = root tree" using descend_plug [OF dsc] by simp
  show thesis
  proof (cases n)
    case (Node l nk nd w r)
    then show thesis using found dsc by (simp add: pr_tree_probe_def)
  next
    case Null
    show thesis
    proof (cases m)
      case False
      then show thesis using nomem dsc Null by (simp add: pr_tree_probe_def node_new_def)
    next
      case True
      show thesis
      proof (cases ps)
        case Nil
        then have "root tree = Null" using plug Null by simp
        then have "pr_tree_probe tree k slot m
            = Some (1, slot, tree\<lparr> root := Node Null k slot 2 Null, count := count tree + 1 \<rparr>)"
          using dsc Null Nil True assms(2) by (simp add: pr_tree_probe_def node_new_def)
        then show thesis
          using new [OF _ True, of ps "Node Null k slot 2 Null"] dsc Null Nil \<open>root tree = Null\<close>
          by simp
      next
        case (Cons f fs)
        have "weight_inv (plug Null ps)" using plug Null assms(1) by simp
        from insert_fixup_new [OF this, of k slot] obtain t' where
          t': "insert_fixup (Node Null k slot 2 Null) ps = Some t'" "t' \<noteq> Null" "weight_inv t'"
            "WEIGHT t' = WEIGHT (plug Null ps) + 1"
            "inorder t' = frames_before ps @ (k, slot) # frames_after ps"
          by blast
        have "pr_tree_probe tree k slot m
            = Some (1, slot, tree\<lparr> root := t', count := count tree + 1 \<rparr>)"
          using dsc Null Cons True t'(1) by (simp add: pr_tree_probe_def node_new_def)
        then show thesis
          using new [OF _ True, of ps t'] dsc Null t' plug by simp
      qed
    qed
  qed
qed

text \<open>What the search loop found, in terms of the in-order sequence.\<close>

lemma descend_Null_inorder:
  assumes "descend cmp k t [] = (Null, ps)"
  shows "inorder t = frames_before ps @ frames_after ps"
  using descend_plug [OF assms] inorder_plug [of Null ps] by simp

lemma descend_Node_inorder:
  assumes "descend cmp k t [] = (Node l nk nd w r, ps)"
  shows "inorder t = (frames_before ps @ inorder l) @ (nk, nd) # (inorder r @ frames_after ps)"
  using descend_plug [OF assms] inorder_plug [of "Node l nk nd w r" ps] by simp

lemma descend_Null_bounds:
  assumes "cmp_ok cmp" "ordered cmp t" "descend cmp k t [] = (Null, ps)"
  shows "bounds cmp k ps"
  using descend_bounds [OF assms(1,2) _ assms(3)] by (simp add: bounds_def)

lemma ordered_insert:
  assumes "cmp_ok cmp" "sorted_wrt (\<lambda>a b. cmp a b < 0) (map fst (xs @ ys))"
    "\<forall>x \<in> set xs. cmp (fst x) k < 0" "\<forall>y \<in> set ys. cmp k (fst y) < 0"
  shows "sorted_wrt (\<lambda>a b. cmp a b < 0) (map fst (xs @ (k, d) # ys))"
  using assms by (auto simp: sorted_wrt_append)

lemma ordered_replace:
  assumes "cmp_ok cmp" "sorted_wrt (\<lambda>a b. cmp a b < 0) (map fst (xs @ (nk, nd) # ys))"
    "cmp k nk = 0"
  shows "sorted_wrt (\<lambda>a b. cmp a b < 0) (map fst (xs @ (k, d) # ys))"
proof -
  have nk: "cmp nk k = 0" using assms(1,3) by (rule cmp_ok_sym)
  have "cmp (fst x) k < 0" if "x \<in> set xs" for x
    using cmp_ok_lt_eq [OF assms(1) _ nk, of "fst x"] assms(2) that
    by (auto simp: sorted_wrt_append)
  moreover have "cmp k (fst y) < 0" if "y \<in> set ys" for y
    using cmp_ok_eq_lt [OF assms(1,3), of "fst y"] assms(2) that
    by (auto simp: sorted_wrt_append)
  ultimately show ?thesis using assms(2) by (auto simp: sorted_wrt_append)
qed

lemma find_first_match:
  assumes "cmp_ok cmp" "\<forall>x \<in> set xs. cmp (fst x) k < 0"
  shows "find (\<lambda>x. cmp k (fst x) = 0) (xs @ (k, d) # ys) = Some (k, d)"
proof -
  have "find (\<lambda>x. cmp k (fst x) = 0) xs = None"
    using assms cmp_ok_lt_neq [OF assms(1)] by (auto simp: find_None_iff)
  then show ?thesis using cmp_ok_refl [OF assms(1)] by (simp add: find_app)
qed

lemma find_replaced:
  assumes "cmp_ok cmp" "sorted_wrt (\<lambda>a b. cmp a b < 0) (map fst (xs @ (nk, nd) # ys))"
    "cmp k nk = 0"
  shows "find (\<lambda>x. cmp k (fst x) = 0) (xs @ (k, d) # ys) = Some (k, d)"
proof -
  have nk: "cmp nk k = 0" using assms(1,3) by (rule cmp_ok_sym)
  have "cmp (fst x) k < 0" if "x \<in> set xs" for x
    using cmp_ok_lt_eq [OF assms(1) _ nk, of "fst x"] assms(2) that
    by (auto simp: sorted_wrt_append)
  then have "\<forall>x \<in> set xs. cmp (fst x) k < 0" by blast
  then show ?thesis by (rule find_first_match [OF assms(1)])
qed

section \<open>Removal\<close>

lemma WEIGHT_size: "weight_inv t \<Longrightarrow> WEIGHT t = size t + 1"
  by (induction t) auto

lemma frames_before_Cons: "frames_before (f # ps) = frames_before ps @ frames_before [f]"
  by (cases f) auto

lemma frames_after_Cons: "frames_after (f # ps) = frames_after [f] @ frames_after ps"
  by (cases f) auto

lemma decr_weights_ok:
  "weight_inv (plug node ps) \<Longrightarrow> weight_inv out \<Longrightarrow> WEIGHT out + 1 = WEIGHT node \<Longrightarrow>
   weight_inv (decr_weights out ps) \<and> WEIGHT (decr_weights out ps) + 1 = WEIGHT (plug node ps)
   \<and> inorder (decr_weights out ps) = frames_before ps @ inorder out @ frames_after ps"
proof (induction ps arbitrary: node out)
  case Nil
  then show ?case by simp
next
  case (Cons f ps)
  let ?a = "attach f node" and ?b = "attach (decr_weight f) out"
  have a: "weight_inv ?a" using Cons.prems(1) by (simp add: weight_inv_plugD)
  have b: "weight_inv ?b" "WEIGHT ?b + 1 = WEIGHT ?a"
      "inorder ?b = frames_before [f] @ inorder out @ frames_after [f]"
    using a Cons.prems(2,3) by - (cases f; simp)+
  have "weight_inv (decr_weights ?b ps) \<and> WEIGHT (decr_weights ?b ps) + 1 = WEIGHT (plug ?a ps)
      \<and> inorder (decr_weights ?b ps) = frames_before ps @ inorder ?b @ frames_after ps"
    using Cons.prems(1) b(1,2) by (intro Cons.IH) simp_all
  then show ?case
    using b(3) by (simp add: frames_before_Cons [of f ps] frames_after_Cons [of f ps])
qed

text \<open>The rotation step of remove on a node with two children.\<close>

lemma remove_rotate_ok:
  assumes "weight_inv (Node l nk nd w r)" "l \<noteq> Null" "r \<noteq> Null"
  shows "\<exists>out l' w' r'. remove_rotate (Node l nk nd w r) = Some (out, Node l' nk nd w' r')
           \<and> size (Node l' nk nd w' r') < size (Node l nk nd w r)
           \<and> weight_inv (attach out (Node l' nk nd w' r'))
           \<and> WEIGHT (attach out (Node l' nk nd w' r')) = w
           \<and> inorder (attach out (Node l' nk nd w' r')) = inorder (Node l nk nd w r)"
proof -
  obtain ll lk ld lw lr where l: "l = Node ll lk ld lw lr" using assms(2) by (cases l) auto
  obtain rl rk rd rw rr where r: "r = Node rl rk rd rw rr" using assms(3) by (cases r) auto
  have pos: "0 < WEIGHT ll" "0 < WEIGHT lr" "0 < WEIGHT rl" "0 < WEIGHT rr"
    using assms(1) l r by (simp_all add: WEIGHT_pos)
  show ?thesis
  proof (cases "lw > rw")
    case True
    show ?thesis
    proof (cases "WEIGHT ll < WEIGHT lr")
      case lean: True
      then obtain a ak ad aw c where "lr = Node a ak ad aw c"
        using pos by (cases lr) auto
      then show ?thesis
        using assms(1) l r True lean by (simp add: remove_rotate_def)
    next
      case False
      then show ?thesis
        using assms(1) l r True by (simp add: remove_rotate_def)
    qed
  next
    case False
    show ?thesis
    proof (cases "WEIGHT rr < WEIGHT rl")
      case lean: True
      then obtain a ak ad aw c where "rl = Node a ak ad aw c"
        using pos by (cases rl) auto
      then show ?thesis
        using assms(1) l r False lean by (simp add: remove_rotate_def)
    next
      case nolean: False
      then show ?thesis
        using assms(1) l r False by (simp add: remove_rotate_def)
    qed
  qed
qed

lemma filter_keep:
  "(\<And>x. x \<in> set xs \<Longrightarrow> P x) \<Longrightarrow> filter P xs = xs"
  by (induction xs) auto

lemma removed_left:
  assumes "cmp_ok (key_cmp tree)" "ordered (key_cmp tree) (Node l nk nd w r)"
    "key_cmp tree k nk < 0" "removed tree k l (LeftOf nk nd w r # ps) res"
  shows "removed tree k (Node l nk nd w r) ps res"
proof -
  have "key_cmp tree k (fst y) \<noteq> 0" if "y \<in> set (inorder r)" for y
    using cmp_ok_trans [OF assms(1,3), of "fst y"] assms(2) that by (simp add: ordered_Node)
  then have "filter (\<lambda>x. key_cmp tree k (fst x) \<noteq> 0) (inorder r) = inorder r"
    by (intro filter_keep) blast
  then show ?thesis
    using assms(3,4) unfolding removed_def by (fastforce simp: )
qed

lemma removed_right:
  assumes "cmp_ok (key_cmp tree)" "ordered (key_cmp tree) (Node l nk nd w r)"
    "key_cmp tree k nk > 0" "removed tree k r (RightOf l nk nd w # ps) res"
  shows "removed tree k (Node l nk nd w r) ps res"
proof -
  have nk: "key_cmp tree nk k < 0" using assms(1,3) by (simp add: cmp_ok_flip)
  have "key_cmp tree k (fst x) \<noteq> 0" if "x \<in> set (inorder l)" for x
    using cmp_ok_lt_neq [OF assms(1) cmp_ok_trans [OF assms(1) _ nk, of "fst x"]] assms(2) that
    by (simp add: ordered_Node)
  then have "filter (\<lambda>x. key_cmp tree k (fst x) \<noteq> 0) (inorder l) = inorder l"
    by (intro filter_keep) blast
  then show ?thesis
    using assms(3,4) unfolding removed_def by (fastforce simp: )
qed

text \<open>In an ordered subtree whose root key compares equal, no other key does.\<close>

lemma only_match:
  assumes "cmp_ok cmp" "ordered cmp (Node l nk nd w r)" "cmp k nk = 0"
  shows "filter (\<lambda>x. cmp k (fst x) \<noteq> 0) (inorder l) = inorder l"
    and "filter (\<lambda>x. cmp k (fst x) \<noteq> 0) (inorder r) = inorder r"
proof -
  have nk: "cmp nk k = 0" using assms(1,3) by (rule cmp_ok_sym)
  have "cmp k (fst x) \<noteq> 0" if "x \<in> set (inorder l)" for x
    using cmp_ok_lt_neq [OF assms(1) cmp_ok_lt_eq [OF assms(1) _ nk, of "fst x"]] assms(2) that
    by (simp add: ordered_Node)
  then show "filter (\<lambda>x. cmp k (fst x) \<noteq> 0) (inorder l) = inorder l"
    by (intro filter_keep) blast
  have "cmp k (fst y) \<noteq> 0" if "y \<in> set (inorder r)" for y
    using cmp_ok_eq_lt [OF assms(1,3), of "fst y"] assms(2) that
    by (simp add: ordered_Node)
  then show "filter (\<lambda>x. cmp k (fst x) \<noteq> 0) (inorder r) = inorder r"
    by (intro filter_keep) blast
qed

lemma removed_splice_left:
  assumes "cmp_ok (key_cmp tree)" "ordered (key_cmp tree) (Node Null nk nd w r)"
    "key_cmp tree k nk = 0" "weight_inv (plug (Node Null nk nd w r) ps)"
  shows "removed tree k (Node Null nk nd w r) ps (Some (0, splice tree nk nd r ps))"
proof -
  have w: "weight_inv (Node Null nk nd w r)" using assms(4) by (rule weight_inv_plugD)
  have "weight_inv (decr_weights r ps)
      \<and> WEIGHT (decr_weights r ps) + 1 = WEIGHT (plug (Node Null nk nd w r) ps)
      \<and> inorder (decr_weights r ps) = frames_before ps @ inorder r @ frames_after ps"
    using w by (intro decr_weights_ok [OF assms(4)]) simp_all
  then show ?thesis
    using only_match(2) [OF assms(1,2,3)] assms(3)
    unfolding removed_def splice_def by auto
qed

lemma removed_splice_right:
  assumes "cmp_ok (key_cmp tree)" "ordered (key_cmp tree) (Node l nk nd w Null)"
    "key_cmp tree k nk = 0" "weight_inv (plug (Node l nk nd w Null) ps)"
  shows "removed tree k (Node l nk nd w Null) ps (Some (0, splice tree nk nd l ps))"
proof -
  have w: "weight_inv (Node l nk nd w Null)" using assms(4) by (rule weight_inv_plugD)
  have "weight_inv (decr_weights l ps)
      \<and> WEIGHT (decr_weights l ps) + 1 = WEIGHT (plug (Node l nk nd w Null) ps)
      \<and> inorder (decr_weights l ps) = frames_before ps @ inorder l @ frames_after ps"
    using w by (intro decr_weights_ok [OF assms(4)]) simp_all
  then show ?thesis
    using only_match(1) [OF assms(1,2,3)] assms(3)
    unfolding removed_def splice_def by auto
qed

lemma sorted_wrt_3:
  assumes "sorted_wrt P (map f (xs @ ys @ zs))" "y \<in> set ys"
  shows "x \<in> set xs \<Longrightarrow> P (f x) (f y)" and "z \<in> set zs \<Longrightarrow> P (f y) (f z)"
  using assms by (auto simp: sorted_wrt_append)

lemma removed_rotated:
  assumes "cmp_ok (key_cmp tree)" "ordered (key_cmp tree) node" "weight_inv (plug node ps)"
    "weight_inv (attach out node')" "WEIGHT (attach out node') = WEIGHT node"
    "inorder (attach out node') = inorder node" "node' = Node l' nk nd w' r'"
    "key_cmp tree k nk = 0"
    "removed tree k node' (out # ps) res"
  shows "removed tree k node ps res"
proof -
  let ?P = "\<lambda>x. key_cmp tree k (fst x) \<noteq> 0"
  have io: "inorder node = frames_before [out] @ inorder node' @ frames_after [out]"
    using assms(6) by (simp add: inorder_attach)
  have srt: "sorted_wrt (\<lambda>a b. key_cmp tree a b < 0)
      (map fst (frames_before [out] @ inorder node' @ frames_after [out]))"
    using assms(2) io by (simp add: ordered_def)
  have mem: "(nk, nd) \<in> set (inorder node')" using assms(7) by simp
  have nk: "key_cmp tree nk k = 0" using assms(1,8) by (rule cmp_ok_sym)
  have "?P x" if "x \<in> set (frames_before [out])" for x
  proof -
    have "key_cmp tree (fst x) nk < 0"
      using sorted_wrt_3(1) [OF srt mem that] by simp
    then show ?thesis
      using cmp_ok_lt_neq [OF assms(1) cmp_ok_lt_eq [OF assms(1) _ nk]] by blast
  qed
  then have fb: "filter ?P (frames_before [out]) = frames_before [out]"
    by (intro filter_keep) blast
  have "?P y" if "y \<in> set (frames_after [out])" for y
  proof -
    have "key_cmp tree nk (fst y) < 0"
      using sorted_wrt_3(2) [OF srt mem that] by simp
    then show ?thesis
      using cmp_ok_eq_lt [OF assms(1,8)] by fastforce
  qed
  then have fa: "filter ?P (frames_after [out]) = frames_after [out]"
    by (intro filter_keep) blast
  have wt: "WEIGHT (plug node' (out # ps)) = WEIGHT (plug node ps)"
    using plug_same_weight [OF assms(3,4,5)] by simp
  from assms(9) obtain t' mk md where res:
    "res = Some (0, tree\<lparr> root := t', count := count tree - 1,
                             deleted := (if del_func tree then deleted tree @ [(mk, md)]
                                         else deleted tree) \<rparr>)"
    "weight_inv t'" "WEIGHT t' + 1 = WEIGHT (plug node' (out # ps))"
    "inorder t' = frames_before (out # ps) @ filter ?P (inorder node') @ frames_after (out # ps)"
    "(mk, md) \<in> set (inorder node')" "key_cmp tree k mk = 0"
    unfolding removed_def by blast
  have "inorder t' = frames_before ps @ filter ?P (inorder node) @ frames_after ps"
    using res(4) by (simp add: io fb fa frames_before_Cons [of out ps] frames_after_Cons [of out ps])
  moreover have "(mk, md) \<in> set (inorder node)" using res(5) io by simp
  ultimately show ?thesis
    unfolding removed_def using res(1,2,3,6) wt by metis
qed

declare remove_loop.simps [simp del]

lemma remove_loop_ok:
  "cmp_ok (key_cmp tree) \<Longrightarrow> weight_inv (plug node ps) \<Longrightarrow> ordered (key_cmp tree) node \<Longrightarrow>
   (if present (key_cmp tree) k node then removed tree k node ps (remove_loop tree k node ps)
    else remove_loop tree k node ps = Some (- 1, tree))"
proof (induction tree k node ps rule: remove_loop.induct)
  case (1 tree k parents)
  then show ?case by (simp add: remove_loop.simps)
next
  case (2 tree k l nk nd w r parents)
  let ?cmp = "key_cmp tree" and ?node = "Node l nk nd w r"
  note ok = "2.prems"(1) and wt = "2.prems"(2) and ord = "2.prems"(3)
  have ol: "ordered ?cmp l" and or: "ordered ?cmp r"
    using ord by (simp_all add: ordered_Node)
  consider (lt) "?cmp k nk < 0" | (gt) "?cmp k nk > 0" | (eq) "?cmp k nk = 0"
    by linarith
  then show ?case
  proof cases
    case lt
    have nr: "\<not> present ?cmp k r"
      using cmp_ok_trans [OF ok lt] ord by (intro not_present_right [OF ok]) (simp add: ordered_Node)
    have pr: "present ?cmp k ?node \<longleftrightarrow> present ?cmp k l"
      using lt nr by (simp add: present_Node)
    have step: "remove_loop tree k ?node parents = remove_loop tree k l (LeftOf nk nd w r # parents)"
      using lt by (simp add: remove_loop.simps)
    have IH: "if present ?cmp k l
        then removed tree k l (LeftOf nk nd w r # parents)
               (remove_loop tree k l (LeftOf nk nd w r # parents))
        else remove_loop tree k l (LeftOf nk nd w r # parents) = Some (- 1, tree)"
      using lt wt ol by (intro "2.IH"(1) [OF refl _ _ ok]) simp_all
    show ?thesis
      using IH removed_left [OF ok ord lt] by (simp add: pr step split: if_splits)
  next
    case gt
    then have nk: "?cmp nk k < 0" using ok by (simp add: cmp_ok_flip)
    have nl: "\<not> present ?cmp k l"
      using cmp_ok_trans [OF ok _ nk] ord by (intro not_present_left [OF ok]) (simp add: ordered_Node)
    have pr: "present ?cmp k ?node \<longleftrightarrow> present ?cmp k r"
      using gt nl by (simp add: present_Node)
    have step: "remove_loop tree k ?node parents = remove_loop tree k r (RightOf l nk nd w # parents)"
      using gt by (simp add: remove_loop.simps)
    have IH: "if present ?cmp k r
        then removed tree k r (RightOf l nk nd w # parents)
               (remove_loop tree k r (RightOf l nk nd w # parents))
        else remove_loop tree k r (RightOf l nk nd w # parents) = Some (- 1, tree)"
      using gt wt or by (intro "2.IH"(2) [OF refl _ _ ok]) simp_all
    show ?thesis
      using IH removed_right [OF ok ord gt] by (simp add: pr step split: if_splits)
  next
    case eq
    then have pr: "present ?cmp k ?node" by (simp add: present_Node)
    show ?thesis
    proof (cases "l = Null")
      case True
      then show ?thesis
        using removed_splice_left [OF ok _ eq, where w = w and r = r and ps = parents] ord wt pr eq
        by (simp add: remove_loop.simps)
    next
      case lnn: False
      show ?thesis
      proof (cases "r = Null")
        case True
        then show ?thesis
          using removed_splice_right [OF ok _ eq, where w = w and l = l and ps = parents] ord wt pr eq lnn
          by (simp add: remove_loop.simps)
      next
        case rnn: False
        have wn: "weight_inv ?node" using wt by (rule weight_inv_plugD)
        from remove_rotate_ok [OF wn lnn rnn] obtain out l' w' r' where
          rot: "remove_rotate ?node = Some (out, Node l' nk nd w' r')"
            "weight_inv (attach out (Node l' nk nd w' r'))"
            "WEIGHT (attach out (Node l' nk nd w' r')) = w"
            "inorder (attach out (Node l' nk nd w' r')) = inorder ?node"
          by blast
        let ?n' = "Node l' nk nd w' r'"
        have step: "remove_loop tree k ?node parents = remove_loop tree k ?n' (out # parents)"
          using eq lnn rnn rot(1) by (simp add: remove_loop.simps)
        have "ordered ?cmp (attach out ?n')"
          using ord rot(4) by (simp add: ordered_def)
        then have on': "ordered ?cmp ?n'"
          by (cases out) (simp_all add: ordered_Node)
        have wt': "weight_inv (plug ?n' (out # parents))"
          using plug_same_weight [OF wt rot(2)] rot(3) by simp
        have pr': "present ?cmp k ?n'" using eq by (simp add: present_Node)
        have "removed tree k ?n' (out # parents) (remove_loop tree k ?n' (out # parents))"
          using "2.IH"(3) [OF refl _ lnn rnn rot(1) refl ok wt' on'] eq pr' by simp
        then have "removed tree k ?node parents (remove_loop tree k ?n' (out # parents))"
          using rot(3) by (intro removed_rotated [OF ok ord wt rot(2) _ rot(4) refl eq]) simp_all
        then show ?thesis using pr step by simp
      qed
    qed
  qed
qed

section \<open>Reachable trees\<close>

lemma remove_loop_weights:
  "weight_inv (plug node ps) \<Longrightarrow>
   remove_loop tree k node ps = Some (- 1, tree) \<or>
   (\<exists>t' nk nd. remove_loop tree k node ps =
        Some (0, tree\<lparr> root := t', count := count tree - 1,
                       deleted := (if del_func tree then deleted tree @ [(nk, nd)]
                                   else deleted tree) \<rparr>)
      \<and> weight_inv t' \<and> WEIGHT t' + 1 = WEIGHT (plug node ps))"
proof (induction tree k node ps rule: remove_loop.induct)
  case (1 tree k parents)
  then show ?case by (simp add: remove_loop.simps)
next
  case (2 tree k l nk nd w r parents)
  let ?node = "Node l nk nd w r"
  note wt = "2.prems"
  have wn: "weight_inv ?node" using wt by (rule weight_inv_plugD)
  consider (lt) "key_cmp tree k nk < 0" | (gt) "key_cmp tree k nk > 0"
    | (left) "key_cmp tree k nk = 0" "l = Null"
    | (right) "key_cmp tree k nk = 0" "l \<noteq> Null" "r = Null"
    | (both) "key_cmp tree k nk = 0" "l \<noteq> Null" "r \<noteq> Null"
    by fastforce
  then show ?case
  proof cases
    case lt
    then show ?thesis
      using "2.IH"(1) [OF refl] wt by (simp add: remove_loop.simps)
  next
    case gt
    then show ?thesis
      using "2.IH"(2) [OF refl] wt by (simp add: remove_loop.simps)
  next
    case left
    have "weight_inv (decr_weights r parents)
        \<and> WEIGHT (decr_weights r parents) + 1 = WEIGHT (plug ?node parents)"
      using decr_weights_ok [OF wt, of r] wn left by simp
    then show ?thesis
      using left by (auto simp: remove_loop.simps splice_def)
  next
    case right
    have "weight_inv (decr_weights l parents)
        \<and> WEIGHT (decr_weights l parents) + 1 = WEIGHT (plug ?node parents)"
      using decr_weights_ok [OF wt, of l] wn right by simp
    then show ?thesis
      using right by (auto simp: remove_loop.simps splice_def)
  next
    case both
    from remove_rotate_ok [OF wn both(2,3)] obtain out l' w' r' where
      rot: "remove_rotate ?node = Some (out, Node l' nk nd w' r')"
        "weight_inv (attach out (Node l' nk nd w' r'))"
        "WEIGHT (attach out (Node l' nk nd w' r')) = w"
      by blast
    let ?n' = "Node l' nk nd w' r'"
    have same: "weight_inv (plug ?n' (out # parents))"
        "WEIGHT (plug ?n' (out # parents)) = WEIGHT (plug ?node parents)"
      using plug_same_weight [OF wt rot(2)] rot(3) by simp_all
    have step: "remove_loop tree k ?node parents = remove_loop tree k ?n' (out # parents)"
      using both rot(1) by (simp add: remove_loop.simps)
    show ?thesis
      using "2.IH"(3) [OF refl _ both(2,3) rot(1) refl same(1)] both(1)
      unfolding step same(2) by simp
  qed
qed

lemma tree_inv_new: "pr_tree_new True cmp del = Some tree \<Longrightarrow> tree_inv tree"
  by (auto simp: pr_tree_new_def tree_inv_def)

lemma size_from_WEIGHT:
  "weight_inv t \<Longrightarrow> weight_inv t' \<Longrightarrow> WEIGHT t' = WEIGHT t + n \<Longrightarrow> size t' = size t + n"
  by (simp add: WEIGHT_size)

lemma tree_inv_insert:
  assumes "tree_inv tree"
  shows "\<exists>rv tree'. pr_tree_insert tree k d overwrite m = Some (rv, tree') \<and> tree_inv tree'
           \<and> key_cmp tree' = key_cmp tree"
proof -
  have inv: "weight_inv (root tree)" "count tree = of_nat (size (root tree))"
    using assms by (simp_all add: tree_inv_def)
  from inv show ?thesis
  proof (cases rule: pr_tree_insert_cases [where k = k and d = d and overwrite = overwrite and m = m])
    case (dup l nk nd w r ps)
    then show ?thesis using assms by simp
  next
    case (replace l nk nd w r ps)
    have p: "plug (Node l nk nd w r) ps = root tree" using descend_plug [OF replace(1)] by simp
    then have "weight_inv (Node l nk nd w r)" using inv(1) weight_inv_plugD by metis
    then have "weight_inv (plug (Node l k d w r) ps)
        \<and> WEIGHT (plug (Node l k d w r) ps) = WEIGHT (plug (Node l nk nd w r) ps)"
      using inv(1) p by (intro plug_same_weight) simp_all
    then have "weight_inv (plug (Node l k d w r) ps)"
        "size (plug (Node l k d w r) ps) = size (root tree)"
      using p inv(1) size_from_WEIGHT [of "root tree" "plug (Node l k d w r) ps" 0] by simp_all
    then show ?thesis using replace(3) inv(2) by (simp add: tree_inv_def)
  next
    case (nomem ps)
    then show ?thesis using assms by simp
  next
    case (new ps t')
    have "size t' = size (root tree) + 1"
      using new(5,6) inv(1) by (simp add: WEIGHT_size)
    then show ?thesis using new(3,5) inv(2) by (simp add: tree_inv_def)
  qed
qed

lemma tree_inv_probe:
  assumes "tree_inv tree"
  shows "\<exists>rv slot' tree'. pr_tree_probe tree k slot m = Some (rv, slot', tree') \<and> tree_inv tree'
           \<and> key_cmp tree' = key_cmp tree"
proof -
  have inv: "weight_inv (root tree)" "count tree = of_nat (size (root tree))"
    using assms by (simp_all add: tree_inv_def)
  from inv show ?thesis
  proof (cases rule: pr_tree_probe_cases [where k = k and slot = slot and m = m])
    case (found l nk nd w r ps)
    then show ?thesis using assms by simp
  next
    case (nomem ps)
    then show ?thesis using assms by simp
  next
    case (new ps t')
    have "size t' = size (root tree) + 1"
      using new(5,6) inv(1) by (simp add: WEIGHT_size)
    then show ?thesis using new(3,5) inv(2) by (simp add: tree_inv_def)
  qed
qed

lemma tree_inv_remove:
  assumes "tree_inv tree" "k \<noteq> NULL"
  shows "\<exists>rv tree'. pr_tree_remove tree k = Some (rv, tree') \<and> tree_inv tree'
           \<and> key_cmp tree' = key_cmp tree"
proof -
  have inv: "weight_inv (root tree)" "count tree = of_nat (size (root tree))"
    using assms by (simp_all add: tree_inv_def)
  from remove_loop_weights [of "root tree" "[]" tree k] inv(1)
  consider "remove_loop tree k (root tree) [] = Some (- 1, tree)"
    | t' nk nd where "remove_loop tree k (root tree) [] =
        Some (0, tree\<lparr> root := t', count := count tree - 1,
                       deleted := (if del_func tree then deleted tree @ [(nk, nd)]
                                   else deleted tree) \<rparr>)"
      "weight_inv t'" "WEIGHT t' + 1 = WEIGHT (root tree)"
    by auto
  then show ?thesis
  proof cases
    case 1
    then show ?thesis using assms by (simp add: pr_tree_remove_def)
  next
    case 2
    have "size t' + 1 = size (root tree)"
      using 2(2,3) inv(1) by (simp add: WEIGHT_size)
    then have "of_nat (size t') = count tree - 1"
      using inv(2) by (metis add_diff_cancel_right' of_nat_1 of_nat_add)
    then show ?thesis using 2(1,2) assms(2) by (simp add: pr_tree_remove_def tree_inv_def)
  qed
qed

lemma tree_inv_empty: "tree_inv (snd (pr_tree_empty tree))"
  by (simp add: pr_tree_empty_def tree_inv_def)

lemma tree_inv_apply_op:
  "tree_inv tree \<Longrightarrow> apply_op tree x = Some tree' \<Longrightarrow> tree_inv tree' \<and> key_cmp tree' = key_cmp tree"
proof (cases x)
  case (Insert k d ow m)
  assume "tree_inv tree" "apply_op tree x = Some tree'"
  then show ?thesis using tree_inv_insert [of tree k d ow m] Insert by auto
next
  case (Probe k slot m)
  assume "tree_inv tree" "apply_op tree x = Some tree'"
  then show ?thesis using tree_inv_probe [of tree k slot m] Probe by auto
next
  case (Remove k)
  assume a: "tree_inv tree" "apply_op tree x = Some tree'"
  then have "k \<noteq> NULL" using Remove by (auto simp: pr_tree_remove_def split: if_splits)
  then show ?thesis using tree_inv_remove [of tree k] a Remove by auto
next
  case Empty
  assume "tree_inv tree" "apply_op tree x = Some tree'"
  then show ?thesis using tree_inv_empty [of tree] Empty by (auto simp: pr_tree_empty_def)
qed

lemma tree_inv_run_ops:
  "tree_inv tree \<Longrightarrow> run_ops tree ops = Some tree' \<Longrightarrow> tree_inv tree' \<and> key_cmp tree' = key_cmp tree"
proof (induction ops arbitrary: tree)
  case Nil
  then show ?case by simp
next
  case (Cons x ops)
  then obtain t1 where t1: "apply_op tree x = Some t1" "run_ops t1 ops = Some tree'"
    by (auto split: option.splits)
  then show ?case
    using tree_inv_apply_op [OF Cons.prems(1) t1(1)] Cons.IH [of t1] by simp
qed

lemma reachable_tree_inv: "reachable tree \<Longrightarrow> tree_inv tree"
  unfolding reachable_def using tree_inv_new tree_inv_run_ops by blast

section \<open>The operations on ordered trees\<close>

lemma pr_tree_search_find:
  "cmp_ok (key_cmp tree) \<Longrightarrow> ordered (key_cmp tree) (root tree) \<Longrightarrow>
   pr_tree_search tree k =
     (case find (\<lambda>x. key_cmp tree k (fst x) = 0) (inorder (root tree)) of
        None \<Rightarrow> NULL | Some x \<Rightarrow> snd x)"
  by (simp add: pr_tree_search_def search_loop_find)

lemma present_find:
  "present cmp k t \<longleftrightarrow> find (\<lambda>x. cmp k (fst x) = 0) (inorder t) \<noteq> None"
  by (force simp: present_def list_ex_iff find_None_iff)

text \<open>\<^verbatim>\<open>pr_tree_insert\<close> on a tree with the invariants and an ordered root.\<close>

lemma pr_tree_insert_spec:
  assumes "tree_inv tree" "cmp_ok (key_cmp tree)" "ordered (key_cmp tree) (root tree)"
  shows "present (key_cmp tree) k (root tree) \<Longrightarrow> overwrite = 0 \<Longrightarrow>
           pr_tree_insert tree k d overwrite m = Some (1, tree)"
    and "present (key_cmp tree) k (root tree) \<Longrightarrow> overwrite \<noteq> 0 \<Longrightarrow>
           \<exists>t' xs nk nd ys.
             pr_tree_insert tree k d overwrite m =
               Some (0, tree\<lparr> root := t',
                              deleted := (if del_func tree then deleted tree @ [(nk, nd)]
                                          else deleted tree) \<rparr>)
             \<and> inorder (root tree) = xs @ (nk, nd) # ys \<and> key_cmp tree k nk = 0
             \<and> inorder t' = xs @ (k, d) # ys \<and> ordered (key_cmp tree) t'
             \<and> search_loop (key_cmp tree) k t' = d"
    and "\<not> present (key_cmp tree) k (root tree) \<Longrightarrow> \<not> m \<Longrightarrow>
           pr_tree_insert tree k d overwrite m = Some (- 1, tree)"
    and "\<not> present (key_cmp tree) k (root tree) \<Longrightarrow> m \<Longrightarrow>
           \<exists>t' xs ys.
             pr_tree_insert tree k d overwrite m =
               Some (0, tree\<lparr> root := t', count := count tree + 1 \<rparr>)
             \<and> inorder (root tree) = xs @ ys \<and> inorder t' = xs @ (k, d) # ys
             \<and> ordered (key_cmp tree) t' \<and> search_loop (key_cmp tree) k t' = d"
proof -
  let ?cmp = "key_cmp tree"
  have inv: "weight_inv (root tree)" "count tree = of_nat (size (root tree))"
    using assms(1) by (simp_all add: tree_inv_def)
  note ok = assms(2) and ord = assms(3)
  have srt: "sorted_wrt (\<lambda>a b. ?cmp a b < 0) (map fst (inorder (root tree)))"
    using ord by (simp add: ordered_def)
  {
    assume p: "present ?cmp k (root tree)" and ow: "overwrite = 0"
    from inv show "pr_tree_insert tree k d overwrite m = Some (1, tree)"
    proof (cases rule: pr_tree_insert_cases [where k = k and d = d and overwrite = overwrite and m = m])
      case (dup l nk nd w r ps)
      then show ?thesis by simp
    next
      case (replace l nk nd w r ps)
      then show ?thesis using ow by simp
    next
      case (nomem ps)
      then show ?thesis using descend_present [OF ok ord nomem(1)] p by simp
    next
      case (new ps t')
      then show ?thesis using descend_present [OF ok ord new(1)] p by simp
    qed
  next
    assume p: "present ?cmp k (root tree)" and ow: "overwrite \<noteq> 0"
    from inv show "\<exists>t' xs nk nd ys.
             pr_tree_insert tree k d overwrite m =
               Some (0, tree\<lparr> root := t',
                              deleted := (if del_func tree then deleted tree @ [(nk, nd)]
                                          else deleted tree) \<rparr>)
             \<and> inorder (root tree) = xs @ (nk, nd) # ys \<and> key_cmp tree k nk = 0
             \<and> inorder t' = xs @ (k, d) # ys \<and> ordered (key_cmp tree) t'
             \<and> search_loop (key_cmp tree) k t' = d"
    proof (cases rule: pr_tree_insert_cases [where k = k and d = d and overwrite = overwrite and m = m])
      case (dup l nk nd w r ps)
      then show ?thesis using ow by simp
    next
      case (replace l nk nd w r ps)
      let ?xs = "frames_before ps @ inorder l" and ?ys = "inorder r @ frames_after ps"
      let ?t' = "plug (Node l k d w r) ps"
      have old: "inorder (root tree) = ?xs @ (nk, nd) # ?ys"
        using descend_Node_inorder [OF replace(1)] .
      have new: "inorder ?t' = ?xs @ (k, d) # ?ys"
        by (simp add: inorder_plug)
      have eq: "?cmp k nk = 0" using descend_Node_eq [OF replace(1)] .
      have srt': "sorted_wrt (\<lambda>a b. ?cmp a b < 0) (map fst (?xs @ (nk, nd) # ?ys))"
        using srt unfolding old .
      have o': "ordered ?cmp ?t'"
        unfolding ordered_def new by (rule ordered_replace [OF ok srt' eq])
      have "find (\<lambda>x. ?cmp k (fst x) = 0) (inorder ?t') = Some (k, d)"
        unfolding new by (rule find_replaced [OF ok srt' eq])
      then have "search_loop ?cmp k ?t' = d"
        using search_loop_find [OF ok o'] by simp
      then show ?thesis using replace(3) old new eq o' by blast
    next
      case (nomem ps)
      then show ?thesis using descend_present [OF ok ord nomem(1)] p by simp
    next
      case (new ps t')
      then show ?thesis using descend_present [OF ok ord new(1)] p by simp
    qed
  next
    assume p: "\<not> present ?cmp k (root tree)" and m: "\<not> m"
    from inv show "pr_tree_insert tree k d overwrite m = Some (- 1, tree)"
    proof (cases rule: pr_tree_insert_cases [where k = k and d = d and overwrite = overwrite and m = m])
      case (dup l nk nd w r ps)
      then show ?thesis using descend_present [OF ok ord dup(1)] p by simp
    next
      case (replace l nk nd w r ps)
      then show ?thesis using descend_present [OF ok ord replace(1)] p by simp
    next
      case (nomem ps)
      then show ?thesis by simp
    next
      case (new ps t')
      then show ?thesis using m by simp
    qed
  next
    assume p: "\<not> present ?cmp k (root tree)" and m: "m"
    from inv show "\<exists>t' xs ys.
             pr_tree_insert tree k d overwrite m =
               Some (0, tree\<lparr> root := t', count := count tree + 1 \<rparr>)
             \<and> inorder (root tree) = xs @ ys \<and> inorder t' = xs @ (k, d) # ys
             \<and> ordered (key_cmp tree) t' \<and> search_loop (key_cmp tree) k t' = d"
    proof (cases rule: pr_tree_insert_cases [where k = k and d = d and overwrite = overwrite and m = m])
      case (dup l nk nd w r ps)
      then show ?thesis using descend_present [OF ok ord dup(1)] p by simp
    next
      case (replace l nk nd w r ps)
      then show ?thesis using descend_present [OF ok ord replace(1)] p by simp
    next
      case (nomem ps)
      then show ?thesis using m by simp
    next
      case (new ps t')
      have old: "inorder (root tree) = frames_before ps @ frames_after ps"
        using descend_Null_inorder [OF new(1)] .
      have b: "bounds ?cmp k ps" using descend_Null_bounds [OF ok ord new(1)] .
      have srt': "sorted_wrt (\<lambda>a b. ?cmp a b < 0) (map fst (frames_before ps @ frames_after ps))"
        using srt unfolding old .
      have lo: "\<forall>x \<in> set (frames_before ps). ?cmp (fst x) k < 0"
        and hi: "\<forall>y \<in> set (frames_after ps). ?cmp k (fst y) < 0"
        using b by (simp_all add: bounds_def)
      have o': "ordered ?cmp t'"
        unfolding ordered_def new(7) by (rule ordered_insert [OF ok srt' lo hi])
      have "find (\<lambda>x. ?cmp k (fst x) = 0) (inorder t') = Some (k, d)"
        unfolding new(7) by (rule find_first_match [OF ok lo])
      then have "search_loop ?cmp k t' = d"
        using search_loop_find [OF ok o'] by simp
      then show ?thesis using new(3,7) old o' by blast
    qed
  }
qed

text \<open>\<^verbatim>\<open>pr_tree_probe\<close> on a tree with the invariants and an ordered root.\<close>

lemma pr_tree_probe_spec:
  assumes "tree_inv tree" "cmp_ok (key_cmp tree)" "ordered (key_cmp tree) (root tree)"
  shows "present (key_cmp tree) k (root tree) \<Longrightarrow>
           pr_tree_probe tree k slot m = Some (0, search_loop (key_cmp tree) k (root tree), tree)"
    and "\<not> present (key_cmp tree) k (root tree) \<Longrightarrow> \<not> m \<Longrightarrow>
           pr_tree_probe tree k slot m = Some (- 1, slot, tree)"
    and "\<not> present (key_cmp tree) k (root tree) \<Longrightarrow> m \<Longrightarrow>
           \<exists>t' xs ys.
             pr_tree_probe tree k slot m =
               Some (1, slot, tree\<lparr> root := t', count := count tree + 1 \<rparr>)
             \<and> inorder (root tree) = xs @ ys \<and> inorder t' = xs @ (k, slot) # ys
             \<and> ordered (key_cmp tree) t' \<and> search_loop (key_cmp tree) k t' = slot"
proof -
  let ?cmp = "key_cmp tree"
  have inv: "weight_inv (root tree)" "count tree = of_nat (size (root tree))"
    using assms(1) by (simp_all add: tree_inv_def)
  note ok = assms(2) and ord = assms(3)
  have srt: "sorted_wrt (\<lambda>a b. ?cmp a b < 0) (map fst (inorder (root tree)))"
    using ord by (simp add: ordered_def)
  {
    assume p: "present ?cmp k (root tree)"
    from inv show "pr_tree_probe tree k slot m = Some (0, search_loop ?cmp k (root tree), tree)"
    proof (cases rule: pr_tree_probe_cases [where k = k and slot = slot and m = m])
      case (found l nk nd w r ps)
      have "search_loop ?cmp k (root tree) = nd"
        using search_loop_descend [of ?cmp k "root tree" "[]"] found(1) by simp
      then show ?thesis using found(2) by simp
    next
      case (nomem ps)
      then show ?thesis using descend_present [OF ok ord nomem(1)] p by simp
    next
      case (new ps t')
      then show ?thesis using descend_present [OF ok ord new(1)] p by simp
    qed
  next
    assume p: "\<not> present ?cmp k (root tree)" and m: "\<not> m"
    from inv show "pr_tree_probe tree k slot m = Some (- 1, slot, tree)"
    proof (cases rule: pr_tree_probe_cases [where k = k and slot = slot and m = m])
      case (found l nk nd w r ps)
      then show ?thesis using descend_present [OF ok ord found(1)] p by simp
    next
      case (nomem ps)
      then show ?thesis by simp
    next
      case (new ps t')
      then show ?thesis using m by simp
    qed
  next
    assume p: "\<not> present ?cmp k (root tree)" and m: "m"
    from inv show "\<exists>t' xs ys.
             pr_tree_probe tree k slot m =
               Some (1, slot, tree\<lparr> root := t', count := count tree + 1 \<rparr>)
             \<and> inorder (root tree) = xs @ ys \<and> inorder t' = xs @ (k, slot) # ys
             \<and> ordered (key_cmp tree) t' \<and> search_loop (key_cmp tree) k t' = slot"
    proof (cases rule: pr_tree_probe_cases [where k = k and slot = slot and m = m])
      case (found l nk nd w r ps)
      then show ?thesis using descend_present [OF ok ord found(1)] p by simp
    next
      case (nomem ps)
      then show ?thesis using m by simp
    next
      case (new ps t')
      have old: "inorder (root tree) = frames_before ps @ frames_after ps"
        using descend_Null_inorder [OF new(1)] .
      have b: "bounds ?cmp k ps" using descend_Null_bounds [OF ok ord new(1)] .
      have srt': "sorted_wrt (\<lambda>a b. ?cmp a b < 0) (map fst (frames_before ps @ frames_after ps))"
        using srt unfolding old .
      have lo: "\<forall>x \<in> set (frames_before ps). ?cmp (fst x) k < 0"
        and hi: "\<forall>y \<in> set (frames_after ps). ?cmp k (fst y) < 0"
        using b by (simp_all add: bounds_def)
      have o': "ordered ?cmp t'"
        unfolding ordered_def new(7) by (rule ordered_insert [OF ok srt' lo hi])
      have "find (\<lambda>x. ?cmp k (fst x) = 0) (inorder t') = Some (k, slot)"
        unfolding new(7) by (rule find_first_match [OF ok lo])
      then have "search_loop ?cmp k t' = slot"
        using search_loop_find [OF ok o'] by simp
      then show ?thesis using new(3,7) old o' by blast
    qed
  }
qed

text \<open>\<^verbatim>\<open>pr_tree_remove\<close> on a tree with the invariants and an ordered root.\<close>

lemma pr_tree_remove_spec:
  assumes "tree_inv tree" "cmp_ok (key_cmp tree)" "ordered (key_cmp tree) (root tree)"
    "k \<noteq> NULL"
  shows "\<not> present (key_cmp tree) k (root tree) \<Longrightarrow> pr_tree_remove tree k = Some (- 1, tree)"
    and "present (key_cmp tree) k (root tree) \<Longrightarrow>
           \<exists>t' nk nd.
             pr_tree_remove tree k =
               Some (0, tree\<lparr> root := t', count := count tree - 1,
                              deleted := (if del_func tree then deleted tree @ [(nk, nd)]
                                          else deleted tree) \<rparr>)
             \<and> (nk, nd) \<in> set (inorder (root tree)) \<and> key_cmp tree k nk = 0
             \<and> inorder t' = filter (\<lambda>x. key_cmp tree k (fst x) \<noteq> 0) (inorder (root tree))
             \<and> ordered (key_cmp tree) t' \<and> \<not> present (key_cmp tree) k t'
             \<and> search_loop (key_cmp tree) k t' = NULL"
proof -
  let ?cmp = "key_cmp tree"
  have wt: "weight_inv (plug (root tree) [])" using assms(1) by (simp add: tree_inv_def)
  note loop = remove_loop_ok [OF assms(2) wt assms(3), of k]
  {
    assume "\<not> present ?cmp k (root tree)"
    then show "pr_tree_remove tree k = Some (- 1, tree)"
      using loop assms(4) by (simp add: pr_tree_remove_def)
  next
    assume "present ?cmp k (root tree)"
    then have "removed tree k (root tree) [] (pr_tree_remove tree k)"
      using loop assms(4) by (simp add: pr_tree_remove_def)
    then obtain t' nk nd where res:
      "pr_tree_remove tree k =
         Some (0, tree\<lparr> root := t', count := count tree - 1,
                        deleted := (if del_func tree then deleted tree @ [(nk, nd)]
                                    else deleted tree) \<rparr>)"
      "inorder t' = filter (\<lambda>x. ?cmp k (fst x) \<noteq> 0) (inorder (root tree))"
      "(nk, nd) \<in> set (inorder (root tree))" "?cmp k nk = 0"
      unfolding removed_def by auto
    have "map fst (inorder t') = filter (\<lambda>a. ?cmp k a \<noteq> 0) (map fst (inorder (root tree)))"
      unfolding res(2) by (simp add: filter_map comp_def)
    then have o': "ordered ?cmp t'"
      using assms(3) by (simp add: ordered_def sorted_wrt_filter)
    have np: "\<not> present ?cmp k t'"
      unfolding present_def res(2) by (simp add: list_ex_iff)
    then have "find (\<lambda>x. ?cmp k (fst x) = 0) (inorder t') = None"
      unfolding present_find by blast
    then have "search_loop ?cmp k t' = NULL"
      using search_loop_find [OF assms(2) o', of k] by simp
    then show "\<exists>t' nk nd.
             pr_tree_remove tree k =
               Some (0, tree\<lparr> root := t', count := count tree - 1,
                              deleted := (if del_func tree then deleted tree @ [(nk, nd)]
                                          else deleted tree) \<rparr>)
             \<and> (nk, nd) \<in> set (inorder (root tree)) \<and> key_cmp tree k nk = 0
             \<and> inorder t' = filter (\<lambda>x. key_cmp tree k (fst x) \<noteq> 0) (inorder (root tree))
             \<and> ordered (key_cmp tree) t' \<and> \<not> present (key_cmp tree) k t'
             \<and> search_loop (key_cmp tree) k t' = NULL"
      using res o' np by blast
  }
qed

text \<open>Every operation keeps the root ordered, so every reachable tree is ordered.\<close>

lemma ordered_apply_op:
  assumes "tree_inv tree" "cmp_ok (key_cmp tree)" "ordered (key_cmp tree) (root tree)"
    "apply_op tree x = Some tree'"
  shows "ordered (key_cmp tree) (root tree')"
proof (cases x)
  case (Insert k d ow m)
  show ?thesis
    using pr_tree_insert_spec [OF assms(1,2,3), where k = k and overwrite = ow and d = d and m = m] assms(3,4) Insert
    by (cases "present (key_cmp tree) k (root tree)"; cases "ow = 0"; cases m) auto
next
  case (Probe k slot m)
  show ?thesis
    using pr_tree_probe_spec [OF assms(1,2,3), where k = k and slot = slot and m = m] assms(3,4) Probe
    by (cases "present (key_cmp tree) k (root tree)"; cases m) auto
next
  case (Remove k)
  then have k: "k \<noteq> NULL" using assms(4) by (auto simp: pr_tree_remove_def split: if_splits)
  show ?thesis
    using pr_tree_remove_spec [OF assms(1,2,3) k] assms(3,4) Remove
    by (cases "present (key_cmp tree) k (root tree)") auto
next
  case Empty
  then show ?thesis using assms(4) by (auto simp: pr_tree_empty_def ordered_def)
qed

lemma ordered_run_ops:
  "tree_inv tree \<Longrightarrow> cmp_ok (key_cmp tree) \<Longrightarrow> ordered (key_cmp tree) (root tree) \<Longrightarrow>
   run_ops tree ops = Some tree' \<Longrightarrow> ordered (key_cmp tree) (root tree')"
proof (induction ops arbitrary: tree)
  case Nil
  then show ?case by simp
next
  case (Cons x ops)
  then obtain t1 where t1: "apply_op tree x = Some t1" "run_ops t1 ops = Some tree'"
    by (auto split: option.splits)
  have "tree_inv t1" "key_cmp t1 = key_cmp tree"
    using tree_inv_apply_op [OF Cons.prems(1) t1(1)] by simp_all
  moreover have "ordered (key_cmp tree) (root t1)"
    using ordered_apply_op [OF Cons.prems(1,2,3) t1(1)] .
  ultimately show ?case
    using Cons.IH [of t1] Cons.prems(2) t1(2) by simp
qed

lemma reachable_ordered:
  assumes "reachable tree" "cmp_ok (key_cmp tree)"
  shows "ordered (key_cmp tree) (root tree)"
proof -
  from assms(1) obtain cmp del tree0 ops where
    t0: "pr_tree_new True cmp del = Some tree0" and run: "run_ops tree0 ops = Some tree"
    unfolding reachable_def by blast
  have inv0: "tree_inv tree0" using t0 by (rule tree_inv_new)
  have cmp0: "key_cmp tree = key_cmp tree0"
    using tree_inv_run_ops [OF inv0 run] by simp
  have "ordered (key_cmp tree0) (root tree0)"
    using t0 by (auto simp: pr_tree_new_def ordered_def)
  then show ?thesis
    using ordered_run_ops [OF inv0 _ _ run] assms(2) cmp0 by simp
qed

section \<open>Walking and iterating\<close>

lemma inorder_loc_root:
  "inorder (loc_root n) = loc_before n @ (loc_key n, loc_datum n) # loc_after n"
  by (cases n) (simp add: inorder_plug)

lemma node_min_spec:
  "loc_root (node_min n) = loc_root n \<and> loc_before (node_min n) = frames_before (loc_parents n)"
  by (induction n rule: node_min.induct) auto

lemma node_max_spec:
  "loc_root (node_max n) = loc_root n \<and> loc_after (node_max n) = frames_after (loc_parents n)"
  by (induction n rule: node_max.induct) auto

lemma climb_next_spec:
  "(climb_next t ps = None \<longrightarrow> frames_after ps = []) \<and>
   (\<forall>n'. climb_next t ps = Some n' \<longrightarrow>
      loc_root n' = plug t ps \<and> loc_before n' = frames_before ps @ inorder t)"
  by (induction t ps rule: climb_next.induct) auto

lemma climb_prev_spec:
  "(climb_prev t ps = None \<longrightarrow> frames_before ps = []) \<and>
   (\<forall>n'. climb_prev t ps = Some n' \<longrightarrow>
      loc_root n' = plug t ps \<and> loc_after n' = inorder t @ frames_after ps)"
  by (induction t ps rule: climb_prev.induct) auto

lemma node_next_Some:
  assumes "node_next n = Some n'"
  shows "loc_root n' = loc_root n"
    and "loc_before n' = loc_before n @ [(loc_key n, loc_datum n)]"
    and "loc_after n = (loc_key n', loc_datum n') # loc_after n'"
proof -
  show r: "loc_root n' = loc_root n" and b: "loc_before n' = loc_before n @ [(loc_key n, loc_datum n)]"
    using assms node_min_spec climb_next_spec
    by (cases n rule: node_next.cases; fastforce)+
  show "loc_after n = (loc_key n', loc_datum n') # loc_after n'"
    using inorder_loc_root [of n] inorder_loc_root [of n'] r b by simp
qed

lemma node_next_None: "node_next n = None \<longleftrightarrow> loc_after n = []"
proof
  assume "node_next n = None"
  then show "loc_after n = []"
    using climb_next_spec by (cases n rule: node_next.cases) auto
next
  assume "loc_after n = []"
  then show "node_next n = None"
    using node_next_Some(3) [of n] by (cases "node_next n") auto
qed

lemma node_prev_Some:
  assumes "node_prev n = Some n'"
  shows "loc_root n' = loc_root n"
    and "loc_after n' = (loc_key n, loc_datum n) # loc_after n"
    and "loc_before n = loc_before n' @ [(loc_key n', loc_datum n')]"
proof -
  show r: "loc_root n' = loc_root n" and a: "loc_after n' = (loc_key n, loc_datum n) # loc_after n"
    using assms node_max_spec climb_prev_spec
    by (cases n rule: node_prev.cases; fastforce)+
  show "loc_before n = loc_before n' @ [(loc_key n', loc_datum n')]"
    using inorder_loc_root [of n] inorder_loc_root [of n'] r a by simp
qed

lemma node_prev_None: "node_prev n = None \<longleftrightarrow> loc_before n = []"
proof
  assume "node_prev n = None"
  then show "loc_before n = []"
    using climb_prev_spec by (cases n rule: node_prev.cases) auto
next
  assume "loc_before n = []"
  then show "node_prev n = None"
    using node_prev_Some(3) [of n] by (cases "node_prev n") auto
qed

text \<open>A walk that is never stopped visits the node it starts at and all that follow.\<close>

declare walk_loop.simps [simp del]

lemma walk_loop_all:
  "walk_loop (\<lambda>k d. True) (Some n) cnt calls =
     (cnt + of_nat (Suc (length (loc_after n))),
      calls @ (loc_key n, loc_datum n) # loc_after n)"
proof (induction "loc_after n" arbitrary: n cnt calls)
  case Nil
  then have "node_next n = None" by (simp add: node_next_None)
  then show ?case using Nil by (simp add: walk_loop.simps)
next
  case (Cons x xs)
  then obtain n' where n': "node_next n = Some n'"
    using node_next_None [of n] by (cases "node_next n") auto
  have after: "loc_after n = (loc_key n', loc_datum n') # loc_after n'"
    using node_next_Some(3) [OF n'] .
  then have "xs = loc_after n'" using Cons.hyps(2) by simp
  from Cons.hyps(1) [OF this]
  have "walk_loop (\<lambda>k d. True) (Some n') (cnt + 1) (calls @ [(loc_key n, loc_datum n)]) =
     (cnt + 1 + of_nat (Suc (length (loc_after n'))),
      (calls @ [(loc_key n, loc_datum n)]) @ (loc_key n', loc_datum n') # loc_after n')" .
  then show ?case using n' after by (simp add: walk_loop.simps)
qed

lemma pr_tree_walk_all:
  "pr_tree_walk tree (\<lambda>k d. True) = (of_nat (size (root tree)), inorder (root tree))"
proof (cases "root tree")
  case Null
  then show ?thesis by (simp add: pr_tree_walk_def)
next
  case (Node l k d w r)
  let ?n = "node_min (Loc l k d w r [])"
  have "loc_root ?n = root tree" "loc_before ?n = []"
    using node_min_spec [of "Loc l k d w r []"] Node by simp_all
  then have io: "inorder (root tree) = (loc_key ?n, loc_datum ?n) # loc_after ?n"
    using inorder_loc_root [of ?n] by simp
  then have "size (root tree) = Suc (length (loc_after ?n))"
    by (simp add: size_inorder)
  then show ?thesis
    using Node io by (simp add: pr_tree_walk_def walk_loop_all)
qed

lemma forward_loop_all:
  "forward_loop itor keys =
     keys @ (case itor_node itor of
               None \<Rightarrow> []
             | Some n \<Rightarrow> map fst ((loc_key n, loc_datum n) # loc_after n))"
proof (induction itor keys rule: forward_loop.induct)
  case (1 itor keys)
  show ?case
  proof (cases "itor_node itor")
    case None
    then have "pr_itor_valid itor = 0" by (simp add: pr_itor_valid_def RETVALID_def)
    then have "forward_loop itor keys = keys" by (subst forward_loop.simps) simp
    then show ?thesis using None by simp
  next
    case (Some n)
    then have valid: "pr_itor_valid itor \<noteq> 0" by (simp add: pr_itor_valid_def RETVALID_def)
    have nxt: "itor_node (snd (pr_itor_next itor)) = node_next n"
      using Some by (simp add: pr_itor_next_def Let_def)
    have key: "pr_itor_key itor = loc_key n" using Some by (simp add: pr_itor_key_def)
    have step: "forward_loop itor keys
        = forward_loop (snd (pr_itor_next itor)) (keys @ [pr_itor_key itor])"
      using valid by (subst forward_loop.simps) simp
    show ?thesis
    proof (cases "node_next n")
      case None
      then have "loc_after n = []" by (simp add: node_next_None)
      then show ?thesis
        using "1.IH" [OF valid] step nxt key None Some by simp
    next
      case n': (Some n')
      then show ?thesis
        using "1.IH" [OF valid] step nxt key Some node_next_Some(3) [OF n'] by simp
    qed
  qed
qed

lemma forward_keys_all: "forward_keys tree = map fst (inorder (root tree))"
proof (cases "root tree")
  case Null
  then show ?thesis by (simp add: forward_keys_def forward_loop_all pr_itor_first_def Let_def)
next
  case (Node l k d w r)
  let ?n = "node_min (Loc l k d w r [])"
  have "loc_root ?n = root tree" "loc_before ?n = []"
    using node_min_spec [of "Loc l k d w r []"] Node by simp_all
  then have io: "inorder (root tree) = (loc_key ?n, loc_datum ?n) # loc_after ?n"
    using inorder_loc_root [of ?n] by simp
  show ?thesis
    using Node io by (simp add: forward_keys_def forward_loop_all pr_itor_first_def Let_def)
qed

section \<open>Further facts about the operations\<close>

lemma run_ops_append:
  "run_ops tree (xs @ ys) = (case run_ops tree xs of None \<Rightarrow> None | Some t \<Rightarrow> run_ops t ys)"
  by (induction xs arbitrary: tree) (auto split: option.splits)

lemma reachable_step:
  assumes "reachable tree" "apply_op tree x = Some tree'"
  shows "reachable tree'"
proof -
  from assms(1) obtain cmp del tree0 ops where
    "pr_tree_new True cmp del = Some tree0" "run_ops tree0 ops = Some tree"
    unfolding reachable_def by blast
  moreover from this assms(2) have "run_ops tree0 (ops @ [x]) = Some tree'"
    by (simp add: run_ops_append)
  ultimately show ?thesis unfolding reachable_def by blast
qed

lemma reachable_invs:
  assumes "reachable tree" "cmp_ok (key_cmp tree)"
  shows "tree_inv tree" and "ordered (key_cmp tree) (root tree)"
  using assms reachable_tree_inv reachable_ordered by blast+

text \<open>In an ordered sequence at most one entry has a key that compares equal to \<open>k\<close>.\<close>

lemma find_the_match:
  assumes "cmp_ok cmp" "sorted_wrt (\<lambda>a b. cmp a b < 0) (map fst xs)"
    "(nk, nd) \<in> set xs" "cmp k nk = 0"
  shows "find (\<lambda>x. cmp k (fst x) = 0) xs = Some (nk, nd)"
  using assms(2,3)
proof (induction xs)
  case Nil
  then show ?case by simp
next
  case (Cons x xs)
  show ?case
  proof (cases "x = (nk, nd)")
    case True
    then show ?thesis using assms(4) by simp
  next
    case False
    then have mem: "(nk, nd) \<in> set xs" using Cons.prems(2) by simp
    then have "cmp (fst x) nk < 0" using Cons.prems(1) by force
    moreover have "cmp nk k = 0" using assms(1,4) by (rule cmp_ok_sym)
    ultimately have "cmp (fst x) k < 0" using cmp_ok_lt_eq [OF assms(1)] by blast
    then have "cmp k (fst x) \<noteq> 0" using cmp_ok_lt_neq [OF assms(1)] by blast
    then show ?thesis using Cons.IH mem Cons.prems(1) by simp
  qed
qed

lemma pr_tree_search_hit:
  assumes "cmp_ok (key_cmp tree)" "ordered (key_cmp tree) (root tree)"
    "(nk, nd) \<in> set (inorder (root tree))" "key_cmp tree k nk = 0"
  shows "pr_tree_search tree k = nd"
  using find_the_match [OF assms(1) _ assms(3,4)] assms(2) pr_tree_search_find [OF assms(1,2), of k]
  by (simp add: ordered_def)

lemma pr_tree_search_miss:
  assumes "cmp_ok (key_cmp tree)" "ordered (key_cmp tree) (root tree)"
    "\<not> present (key_cmp tree) k (root tree)"
  shows "pr_tree_search tree k = NULL"
proof -
  have "find (\<lambda>x. key_cmp tree k (fst x) = 0) (inorder (root tree)) = None"
    using assms(3) unfolding present_find by blast
  then show ?thesis using pr_tree_search_find [OF assms(1,2), of k] by simp
qed

text \<open>
  The loop of \<^verbatim>\<open>pr_tree_remove\<close> at a node whose key compares equal: whatever the
  comparator, it ends in one of the two splice branches.
\<close>

lemma remove_loop_found:
  "weight_inv node \<Longrightarrow> node = Node l nk nd w r \<Longrightarrow> key_cmp tree k nk = 0 \<Longrightarrow>
   \<exists>out ps'. remove_loop tree k node ps = Some (0, splice tree nk nd out ps')"
proof (induction node arbitrary: l w r ps rule: measure_induct_rule [where f = size])
  case (less node)
  show ?case
  proof (cases "l = Null \<or> r = Null")
    case True
    then show ?thesis using less.prems(2,3) by (auto simp: remove_loop.simps)
  next
    case False
    then have l: "l \<noteq> Null" and r: "r \<noteq> Null" by simp_all
    from remove_rotate_ok [OF less.prems(1) [unfolded less.prems(2)] l r] obtain out l' w' r' where
      rot: "remove_rotate (Node l nk nd w r) = Some (out, Node l' nk nd w' r')"
        "size (Node l' nk nd w' r') < size (Node l nk nd w r)"
        "weight_inv (attach out (Node l' nk nd w' r'))"
      by blast
    have w': "weight_inv (Node l' nk nd w' r')"
      using rot(3) by (cases out) simp_all
    have step: "remove_loop tree k node ps = remove_loop tree k (Node l' nk nd w' r') (out # ps)"
      using less.prems(2,3) l r rot(1) by (simp add: remove_loop.simps)
    show ?thesis
      unfolding step
      using less.IH [OF _ w' refl less.prems(3)] rot(2) less.prems(2) by simp
  qed
qed

section \<open>The two concrete trees are reachable\<close>

lemma example_tree_reachable: "reachable example_tree"
proof -
  have "pr_tree_new True None False
      = Some \<lparr> root = Null, count = 0, key_cmp = dict_ptr_cmp, del_func = False, deleted = [] \<rparr>"
    by (simp add: pr_tree_new_def)
  moreover have
    "run_ops \<lparr> root = Null, count = 0, key_cmp = dict_ptr_cmp, del_func = False, deleted = [] \<rparr>
       [Insert 2 20 0 True, Insert 1 10 0 True, Insert 3 30 0 True, Insert 4 40 0 True]
     = Some example_tree"
    by (simp add: example_tree_def pr_tree_insert_def node_new_def dict_ptr_cmp_def
          fixup.simps Let_def)
  ultimately show ?thesis unfolding reachable_def by blast
qed

lemma example_tree_cmp_ok: "cmp_ok (key_cmp example_tree)"
  by (simp add: example_tree_def cmp_ok_dict_ptr_cmp)

lemma null_datum_tree_reachable: "reachable null_datum_tree"
proof -
  have "pr_tree_new True None False
      = Some \<lparr> root = Null, count = 0, key_cmp = dict_ptr_cmp, del_func = False, deleted = [] \<rparr>"
    by (simp add: pr_tree_new_def)
  moreover have
    "run_ops \<lparr> root = Null, count = 0, key_cmp = dict_ptr_cmp, del_func = False, deleted = [] \<rparr>
       [Insert 7 0 0 True]
     = Some null_datum_tree"
    by (simp add: null_datum_tree_def pr_tree_insert_def node_new_def)
  ultimately show ?thesis unfolding reachable_def by blast
qed

lemma null_datum_tree_cmp_ok: "cmp_ok (key_cmp null_datum_tree)"
  by (simp add: null_datum_tree_def cmp_ok_dict_ptr_cmp)

lemma rot_left_Node:
  "rot_left (Node a k d w (Node c k' d' w' e)) =
     Some (Node (Node a k d (WEIGHT a + WEIGHT c) c) k' d' (WEIGHT a + WEIGHT c + WEIGHT e) e)"
  by simp

lemma rot_right_Node:
  "rot_right (Node (Node a k' d' w' c) k d w e) =
     Some (Node a k' d' (WEIGHT a + (WEIGHT c + WEIGHT e)) (Node c k d (WEIGHT c + WEIGHT e) e))"
  by simp

lemma rot_left_weights:
  "weight_inv (plug t ps) \<Longrightarrow> rot_left t = Some t' \<Longrightarrow>
   weight_inv (plug t' ps) \<and> WEIGHT t' = WEIGHT t"
proof -
  assume wt: "weight_inv (plug t ps)" and rot: "rot_left t = Some t'"
  have "weight_inv t" using wt by (rule weight_inv_plugD)
  then have "weight_inv t' \<and> WEIGHT t' = WEIGHT t"
    using rot by (induction t rule: rot_left.induct) auto
  then show ?thesis using plug_same_weight [OF wt] by simp
qed

lemma rot_right_weights:
  "weight_inv (plug t ps) \<Longrightarrow> rot_right t = Some t' \<Longrightarrow>
   weight_inv (plug t' ps) \<and> WEIGHT t' = WEIGHT t"
proof -
  assume wt: "weight_inv (plug t ps)" and rot: "rot_right t = Some t'"
  have "weight_inv t" using wt by (rule weight_inv_plugD)
  then have "weight_inv t' \<and> WEIGHT t' = WEIGHT t"
    using rot by (induction t rule: rot_right.induct) auto
  then show ?thesis using plug_same_weight [OF wt] by simp
qed

lemma plug_append: "plug t (ps1 @ ps2) = plug (plug t ps1) ps2"
  by (induction ps1 arbitrary: t) auto

lemma insert_increments_ancestors:
  assumes "weight_inv t" "descend cmp k t [] = (Null, ps1 @ ps2)"
  shows "\<exists>u. insert_fixup (node_new True k d) ps1 = Some u \<and> weight_inv u
           \<and> WEIGHT u = WEIGHT (plug Null ps1) + 1"
proof -
  have "plug (plug Null ps1) ps2 = t"
    using descend_plug [OF assms(2)] by (simp add: plug_append)
  then have "weight_inv (plug Null ps1)"
    using assms(1) weight_inv_plugD by metis
  from insert_fixup_new [OF this, of k d] show ?thesis
    by (auto simp: node_new_def)
qed

lemma remove_weights:
  assumes "tree_inv tree" "pr_tree_remove tree k = Some (rv, tree')"
  shows "weight_inv (root tree') \<and> (rv = 0 \<longrightarrow> WEIGHT (root tree') + 1 = WEIGHT (root tree))"
proof -
  have wt: "weight_inv (plug (root tree) [])" using assms(1) by (simp add: tree_inv_def)
  have "remove_loop tree k (root tree) [] = Some (rv, tree')"
    using assms(2) by (simp add: pr_tree_remove_def split: if_splits)
  then show ?thesis
    using remove_loop_weights [OF wt, of tree k] wt by auto
qed

section \<open>The weight invariant\<close>

text \<open>
  C2. Every operation preserves the weight invariant: in every reachable tree the weight
  of each node is the sum of the weights of its children, a missing child counting 1.
  A new node has weight 2. While \<^verbatim>\<open>pr_tree_insert\<close> walks up from the new node, the
  subtree it leaves in the place of each ancestor weighs exactly one more than the
  subtree that was there (\<open>ps1\<close> is the chain of the ancestors walked so far, \<open>ps2\<close>
  the ancestors above). A successful \<^verbatim>\<open>pr_tree_remove\<close> leaves a root that weighs
  exactly one less, and its loop over any chain of ancestors leaves every place on the
  chain one lighter. A rotation reweighs the two nodes it moves, leaves the three
  subtrees below them as they are, and yields a subtree of the same weight, so that the
  ancestors, which it does not touch, still carry correct weights.
\<close>

theorem weight_invariant_preserved:
  assumes "reachable tree"
  shows "weight_inv (root tree)
    \<and> node_new True k d = Node Null k d 2 Null
    \<and> (\<forall>rv tree'. pr_tree_insert tree k d overwrite m = Some (rv, tree') \<longrightarrow>
          weight_inv (root tree'))
    \<and> (\<forall>ps1 ps2. descend (key_cmp tree) k (root tree) [] = (Null, ps1 @ ps2) \<longrightarrow>
          (\<exists>u. insert_fixup (node_new True k d) ps1 = Some u \<and> weight_inv u
               \<and> WEIGHT u = WEIGHT (plug Null ps1) + 1))
    \<and> (\<forall>rv tree'. pr_tree_remove tree k' = Some (rv, tree') \<longrightarrow>
          weight_inv (root tree') \<and> (rv = 0 \<longrightarrow> WEIGHT (root tree') + 1 = WEIGHT (root tree)))
    \<and> (\<forall>node out ps. weight_inv (plug node ps) \<and> weight_inv out \<and> WEIGHT out + 1 = WEIGHT node \<longrightarrow>
          weight_inv (decr_weights out ps)
          \<and> WEIGHT (decr_weights out ps) + 1 = WEIGHT (plug node ps))
    \<and> rot_left (Node a bk bd bw (Node c dk dd dw e)) =
        Some (Node (Node a bk bd (WEIGHT a + WEIGHT c) c) dk dd (WEIGHT a + WEIGHT c + WEIGHT e) e)
    \<and> rot_right (Node (Node a bk bd bw c) dk dd dw e) =
        Some (Node a bk bd (WEIGHT a + (WEIGHT c + WEIGHT e)) (Node c dk dd (WEIGHT c + WEIGHT e) e))
    \<and> (\<forall>t t' ps. weight_inv (plug t ps) \<and> (rot_left t = Some t' \<or> rot_right t = Some t') \<longrightarrow>
          weight_inv (plug t' ps) \<and> WEIGHT t' = WEIGHT t)"
proof -
  have inv: "tree_inv tree" using assms by (rule reachable_tree_inv)
  then have w: "weight_inv (root tree)" by (simp add: tree_inv_def)
  have ins: "\<forall>rv tree'. pr_tree_insert tree k d overwrite m = Some (rv, tree') \<longrightarrow>
      weight_inv (root tree')"
    using tree_inv_insert [OF inv, of k d overwrite m] by (auto simp: tree_inv_def)
  have anc: "\<forall>ps1 ps2. descend (key_cmp tree) k (root tree) [] = (Null, ps1 @ ps2) \<longrightarrow>
      (\<exists>u. insert_fixup (node_new True k d) ps1 = Some u \<and> weight_inv u
           \<and> WEIGHT u = WEIGHT (plug Null ps1) + 1)"
    using insert_increments_ancestors [OF w] by blast
  have rem: "\<forall>rv tree'. pr_tree_remove tree k' = Some (rv, tree') \<longrightarrow>
      weight_inv (root tree') \<and> (rv = 0 \<longrightarrow> WEIGHT (root tree') + 1 = WEIGHT (root tree))"
    using remove_weights [OF inv] by blast
  have dec: "\<forall>node out ps. weight_inv (plug node ps) \<and> weight_inv out \<and> WEIGHT out + 1 = WEIGHT node \<longrightarrow>
      weight_inv (decr_weights out ps) \<and> WEIGHT (decr_weights out ps) + 1 = WEIGHT (plug node ps)"
    using decr_weights_ok by blast
  have rot: "\<forall>t t' ps. weight_inv (plug t ps) \<and> (rot_left t = Some t' \<or> rot_right t = Some t') \<longrightarrow>
      weight_inv (plug t' ps) \<and> WEIGHT t' = WEIGHT t"
    using rot_left_weights rot_right_weights by blast
  have new: "node_new True k d = Node Null k d 2 Null"
    by (simp add: node_new_def)
  show ?thesis
    by (intro conjI) (rule w new ins anc rem dec rot rot_left_Node rot_right_Node)+
qed

theorem weight_invariant_preserved_witness:
  "weight_inv (root example_tree)
   \<and> (\<exists>tree'. pr_tree_insert example_tree 5 50 0 True = Some (0, tree') \<and> weight_inv (root tree'))
   \<and> (\<exists>u. insert_fixup (node_new True 5 50) [RightOf Null 4 40 2, RightOf Null 3 30 3] = Some u
          \<and> weight_inv u \<and> WEIGHT u = 4)
   \<and> (\<exists>tree'. pr_tree_remove example_tree 1 = Some (0, tree') \<and> weight_inv (root tree')
          \<and> WEIGHT (root tree') + 1 = WEIGHT (root example_tree))
   \<and> weight_inv (decr_weights Null [LeftOf 2 20 5 (Node Null 3 30 3 (Node Null 4 40 2 Null))])
   \<and> WEIGHT (decr_weights Null [LeftOf 2 20 5 (Node Null 3 30 3 (Node Null 4 40 2 Null))]) + 1 = 5
   \<and> (\<exists>t'. rot_left (Node Null 3 30 3 (Node Null 4 40 2 Null)) = Some t'
          \<and> weight_inv (plug t' [RightOf (Node Null 1 10 2 Null) 2 20 5]) \<and> WEIGHT t' = 3)"
proof -
  note th = weight_invariant_preserved [OF example_tree_reachable,
      where k = 5 and d = 50 and k' = 1 and overwrite = 0 and m = True]
  have dsc: "descend (key_cmp example_tree) 5 (root example_tree) []
      = (Null, [RightOf Null 4 40 2, RightOf Null 3 30 3]
               @ [RightOf (Node Null 1 10 2 Null) 2 20 5])"
    by (simp add: example_tree_def dict_ptr_cmp_def)
  have rem: "pr_tree_remove example_tree 1
      = Some (0, \<lparr> root = Node Null 2 20 4 (Node Null 3 30 3 (Node Null 4 40 2 Null)),
                   count = 3, key_cmp = dict_ptr_cmp, del_func = False, deleted = [] \<rparr>)"
    by (simp add: example_tree_def pr_tree_remove_def remove_loop.simps dict_ptr_cmp_def
          NULL_def splice_def)
  obtain rv tree' where ins: "pr_tree_insert example_tree 5 50 0 True = Some (rv, tree')"
    using tree_inv_insert [OF reachable_tree_inv [OF example_tree_reachable], of 5 50 0 True]
    by blast
  have "rv = 0"
    using ins by (simp add: example_tree_def pr_tree_insert_def dict_ptr_cmp_def node_new_def
        split: option.splits)
  then have ins0: "pr_tree_insert example_tree 5 50 0 True = Some (0, tree')"
    using ins by simp
  have one: "weight_inv (root example_tree)"
    using th [THEN conjunct1] .
  have two: "\<exists>tree'. pr_tree_insert example_tree 5 50 0 True = Some (0, tree')
      \<and> weight_inv (root tree')"
    using th [THEN conjunct2, THEN conjunct2, THEN conjunct1, THEN spec, THEN spec, THEN mp,
        OF ins0] ins0 by blast
  have three: "\<exists>u. insert_fixup (node_new True 5 50) [RightOf Null 4 40 2, RightOf Null 3 30 3] = Some u
          \<and> weight_inv u \<and> WEIGHT u = WEIGHT (plug Null [RightOf Null 4 40 2, RightOf Null 3 30 3]) + 1"
    using th [THEN conjunct2, THEN conjunct2, THEN conjunct2, THEN conjunct1, rule_format, OF dsc] .
  have four: "weight_inv (root (\<lparr> root = Node Null 2 20 4 (Node Null 3 30 3 (Node Null 4 40 2 Null)),
                   count = 3, key_cmp = dict_ptr_cmp, del_func = False, deleted = [] \<rparr>))
      \<and> (0 = (0::int) \<longrightarrow> WEIGHT (root (\<lparr> root = Node Null 2 20 4 (Node Null 3 30 3 (Node Null 4 40 2 Null)),
                   count = 3, key_cmp = dict_ptr_cmp, del_func = False, deleted = [] \<rparr>)) + 1
          = WEIGHT (root example_tree))"
    using th [THEN conjunct2, THEN conjunct2, THEN conjunct2, THEN conjunct2, THEN conjunct1,
        THEN spec, THEN spec, THEN mp, OF rem] .
  let ?ps = "[LeftOf 2 20 5 (Node Null 3 30 3 (Node Null 4 40 2 Null))]"
  have pre5: "weight_inv (plug (Node Null 1 10 2 Null) ?ps) \<and> weight_inv Null
      \<and> WEIGHT Null + 1 = WEIGHT (Node Null 1 10 2 Null)"
    by simp
  have five: "weight_inv (decr_weights Null ?ps)
      \<and> WEIGHT (decr_weights Null ?ps) + 1 = WEIGHT (plug (Node Null 1 10 2 Null) ?ps)"
    using th [THEN conjunct2, THEN conjunct2, THEN conjunct2, THEN conjunct2, THEN conjunct2,
        THEN conjunct1, THEN spec, THEN spec, THEN spec, THEN mp, OF pre5] .
  let ?t = "Node Null 3 30 3 (Node Null 4 40 2 Null)"
  let ?t' = "Node (Node Null 3 30 2 Null) 4 40 3 Null"
  have pre6: "weight_inv (plug ?t [RightOf (Node Null 1 10 2 Null) 2 20 5])
      \<and> (rot_left ?t = Some ?t' \<or> rot_right ?t = Some ?t')"
    by simp
  have six: "weight_inv (plug ?t' [RightOf (Node Null 1 10 2 Null) 2 20 5]) \<and> WEIGHT ?t' = WEIGHT ?t"
    using th [THEN conjunct2, THEN conjunct2, THEN conjunct2, THEN conjunct2, THEN conjunct2,
        THEN conjunct2, THEN conjunct2, THEN conjunct2, THEN spec, THEN spec, THEN spec, THEN mp,
        OF pre6] .
  have rot: "rot_left ?t = Some ?t'" by simp
  show ?thesis
    using one two three four five six rot rem by simp
qed

section \<open>Round trips\<close>

text \<open>
  C3. In a reachable tree under a comparator that orders the keys: inserting a key that
  is not present, when the node can be allocated, returns 0 and makes a search for the
  key return exactly the inserted value; removing a key that is present returns 0 and
  makes a search for the key return the null pointer; removing a key that is not present
  returns -1 and leaves the tree as it was. (\<^verbatim>\<open>pr_tree_remove\<close> asserts that its key is
  not null.)
\<close>

theorem insert_search_remove_round_trip:
  assumes "reachable tree" "cmp_ok (key_cmp tree)"
  shows "(\<not> present (key_cmp tree) k (root tree) \<longrightarrow>
            (\<exists>tree'. pr_tree_insert tree k d overwrite True = Some (0, tree')
                     \<and> pr_tree_search tree' k = d))
    \<and> (k \<noteq> NULL \<and> present (key_cmp tree) k (root tree) \<longrightarrow>
            (\<exists>tree'. pr_tree_remove tree k = Some (0, tree')
                     \<and> pr_tree_search tree' k = NULL
                     \<and> \<not> present (key_cmp tree') k (root tree')))
    \<and> (k \<noteq> NULL \<and> \<not> present (key_cmp tree) k (root tree) \<longrightarrow>
            pr_tree_remove tree k = Some (- 1, tree))"
proof -
  note inv = reachable_invs [OF assms]
  have "\<exists>tree'. pr_tree_insert tree k d overwrite True = Some (0, tree')
                     \<and> pr_tree_search tree' k = d"
    if "\<not> present (key_cmp tree) k (root tree)"
    using pr_tree_insert_spec(4) [OF inv(1) assms(2) inv(2) that, of True d overwrite]
    by (auto simp: pr_tree_search_def)
  moreover have "\<exists>tree'. pr_tree_remove tree k = Some (0, tree')
                     \<and> pr_tree_search tree' k = NULL
                     \<and> \<not> present (key_cmp tree') k (root tree')"
    if "k \<noteq> NULL" "present (key_cmp tree) k (root tree)"
    using pr_tree_remove_spec(2) [OF inv(1) assms(2) inv(2) that]
    by (auto simp: pr_tree_search_def)
  moreover have "pr_tree_remove tree k = Some (- 1, tree)"
    if "k \<noteq> NULL" "\<not> present (key_cmp tree) k (root tree)"
    using pr_tree_remove_spec(1) [OF inv(1) assms(2) inv(2) that] .
  ultimately show ?thesis by blast
qed

theorem insert_search_remove_round_trip_witness:
  "\<not> present (key_cmp example_tree) 5 (root example_tree)
   \<and> (\<exists>tree'. pr_tree_insert example_tree 5 50 0 True = Some (0, tree')
              \<and> pr_tree_search tree' 5 = 50)
   \<and> present (key_cmp example_tree) 3 (root example_tree)
   \<and> (\<exists>tree'. pr_tree_remove example_tree 3 = Some (0, tree')
              \<and> pr_tree_search tree' 3 = NULL)
   \<and> pr_tree_remove example_tree 5 = Some (- 1, example_tree)"
proof -
  note th = insert_search_remove_round_trip [OF example_tree_reachable example_tree_cmp_ok]
  have absent: "\<not> present (key_cmp example_tree) 5 (root example_tree)"
    by (simp add: example_tree_def present_def dict_ptr_cmp_def)
  have there: "present (key_cmp example_tree) 3 (root example_tree)"
    by (simp add: example_tree_def present_def dict_ptr_cmp_def)
  have nz: "(5::nat) \<noteq> NULL" "(3::nat) \<noteq> NULL" by (simp_all add: NULL_def)
  have "\<exists>tree'. pr_tree_insert example_tree 5 50 0 True = Some (0, tree')
              \<and> pr_tree_search tree' 5 = 50"
    using th [where k = 5 and d = 50 and overwrite = 0, THEN conjunct1, THEN mp, OF absent] .
  moreover have "\<exists>tree'. pr_tree_remove example_tree 3 = Some (0, tree')
              \<and> pr_tree_search tree' 3 = NULL
              \<and> \<not> present (key_cmp tree') 3 (root tree')"
    using th [where k = 3, THEN conjunct2, THEN conjunct1, THEN mp, OF conjI [OF nz(2) there]] .
  moreover have "pr_tree_remove example_tree 5 = Some (- 1, example_tree)"
    using th [where k = 5, THEN conjunct2, THEN conjunct2, THEN mp, OF conjI [OF nz(1) absent]] .
  ultimately show ?thesis using absent there by blast
qed

lemma present_mem:
  "cmp_ok cmp \<Longrightarrow> (k, d) \<in> set (inorder t) \<Longrightarrow> present cmp k t"
  using cmp_ok_refl [of cmp k] by (force simp: present_def list_ex_iff)

section \<open>The results of insert\<close>

text \<open>
  C4. In a reachable tree under a comparator that orders the keys,
  \<^verbatim>\<open>pr_tree_insert\<close> returns 0 and stores the pair when the key is not present and the
  node can be allocated; returns 0 and replaces the pair of the key when the key is
  present and \<^verbatim>\<open>overwrite\<close> is not 0; returns 1 and changes nothing when the key is
  present and \<^verbatim>\<open>overwrite\<close> is 0; returns -1 and changes nothing when the key is not
  present and the allocation fails. It returns -1 in no other case. A second insert of
  a key, with \<^verbatim>\<open>overwrite\<close> 0, after a first one that did not fail, returns 1 and leaves
  the tree, hence its sequence of key/datum pairs, as the first one left it.
\<close>

theorem insert_results:
  assumes "reachable tree" "cmp_ok (key_cmp tree)"
  shows "(\<not> present (key_cmp tree) k (root tree) \<and> m \<longrightarrow>
            (\<exists>tree' xs ys. pr_tree_insert tree k d overwrite m = Some (0, tree')
                \<and> inorder (root tree) = xs @ ys \<and> inorder (root tree') = xs @ (k, d) # ys
                \<and> pr_tree_search tree' k = d))
    \<and> (present (key_cmp tree) k (root tree) \<and> overwrite \<noteq> 0 \<longrightarrow>
            (\<exists>tree' xs nk nd ys. pr_tree_insert tree k d overwrite m = Some (0, tree')
                \<and> inorder (root tree) = xs @ (nk, nd) # ys \<and> key_cmp tree k nk = 0
                \<and> inorder (root tree') = xs @ (k, d) # ys
                \<and> pr_tree_search tree' k = d))
    \<and> (present (key_cmp tree) k (root tree) \<and> overwrite = 0 \<longrightarrow>
            pr_tree_insert tree k d overwrite m = Some (1, tree))
    \<and> (\<not> present (key_cmp tree) k (root tree) \<and> \<not> m \<longrightarrow>
            pr_tree_insert tree k d overwrite m = Some (- 1, tree))
    \<and> (\<forall>rv tree'. pr_tree_insert tree k d overwrite m = Some (rv, tree') \<longrightarrow>
            (rv = - 1 \<longleftrightarrow> \<not> present (key_cmp tree) k (root tree) \<and> \<not> m))
    \<and> (\<forall>rv tree'. pr_tree_insert tree k d 0 m = Some (rv, tree') \<and> rv \<noteq> - 1 \<longrightarrow>
            pr_tree_insert tree' k d' 0 m' = Some (1, tree'))"
proof -
  let ?cmp = "key_cmp tree"
  note inv = reachable_invs [OF assms]
  note spec = pr_tree_insert_spec [OF inv(1) assms(2) inv(2)]
  have new: "\<exists>tree' xs ys. pr_tree_insert tree k d ow m = Some (0, tree')
                \<and> inorder (root tree) = xs @ ys \<and> inorder (root tree') = xs @ (k, d) # ys
                \<and> pr_tree_search tree' k = d"
    if "\<not> present ?cmp k (root tree)" "m" for ow
  proof -
    from spec(4) [OF that, of d ow] obtain t' xs ys where
      "pr_tree_insert tree k d ow m = Some (0, tree\<lparr> root := t', count := count tree + 1 \<rparr>)"
      "inorder (root tree) = xs @ ys" "inorder t' = xs @ (k, d) # ys"
      "search_loop ?cmp k t' = d"
      by blast
    then show ?thesis by (intro exI [of _ "tree\<lparr> root := t', count := count tree + 1 \<rparr>"]
          exI [of _ xs] exI [of _ ys]) (simp add: pr_tree_search_def)
  qed
  have repl: "\<exists>tree' xs nk nd ys. pr_tree_insert tree k d overwrite m = Some (0, tree')
                \<and> inorder (root tree) = xs @ (nk, nd) # ys \<and> key_cmp tree k nk = 0
                \<and> inorder (root tree') = xs @ (k, d) # ys
                \<and> pr_tree_search tree' k = d"
    if "present ?cmp k (root tree)" "overwrite \<noteq> 0"
  proof -
    from spec(2) [OF that, of d m] obtain t' xs nk nd ys where
      "pr_tree_insert tree k d overwrite m =
         Some (0, tree\<lparr> root := t',
                        deleted := (if del_func tree then deleted tree @ [(nk, nd)]
                                    else deleted tree) \<rparr>)"
      "inorder (root tree) = xs @ (nk, nd) # ys" "?cmp k nk = 0"
      "inorder t' = xs @ (k, d) # ys" "search_loop ?cmp k t' = d"
      by blast
    then show ?thesis
      by (intro exI [of _ "tree\<lparr> root := t',
                        deleted := (if del_func tree then deleted tree @ [(nk, nd)]
                                    else deleted tree) \<rparr>"]
          exI [of _ xs] exI [of _ nk] exI [of _ nd] exI [of _ ys])
         (simp add: pr_tree_search_def)
  qed
  have dup: "pr_tree_insert tree k d ow m = Some (1, tree)"
    if "present ?cmp k (root tree)" "ow = 0" for ow
    using spec(1) [OF that] .
  have nomem: "pr_tree_insert tree k d ow m = Some (- 1, tree)"
    if "\<not> present ?cmp k (root tree)" "\<not> m" for ow
    using spec(3) [OF that] .
  have fails: "rv = - 1 \<longleftrightarrow> \<not> present ?cmp k (root tree) \<and> \<not> m"
    if "pr_tree_insert tree k d overwrite m = Some (rv, tree')" for rv tree'
    using that new [of overwrite] repl dup [of overwrite] nomem [of overwrite]
    by (cases "present ?cmp k (root tree)"; cases m; cases "overwrite = 0") auto
  have twice: "pr_tree_insert tree' k d' 0 m' = Some (1, tree')"
    if first: "pr_tree_insert tree k d 0 m = Some (rv, tree')" and rv: "rv \<noteq> - 1" for rv tree'
  proof -
    have r': "reachable tree'"
      using reachable_step [OF assms(1), of "Insert k d 0 m" tree'] first by simp
    have c': "key_cmp tree' = ?cmp"
      using tree_inv_insert [OF inv(1), of k d 0 m] first by auto
    then have ok': "cmp_ok (key_cmp tree')" using assms(2) by simp
    note inv' = reachable_invs [OF r' ok']
    have "present (key_cmp tree') k (root tree')"
    proof (cases "present ?cmp k (root tree)")
      case True
      then have "tree' = tree" using dup [of 0] first by simp
      then show ?thesis using True by simp
    next
      case False
      then have m using nomem [of 0] first rv by (cases m) auto
      from new [OF False this, of 0] first
      have "(k, d) \<in> set (inorder (root tree'))" by auto
      then show ?thesis using present_mem [OF ok'] by blast
    qed
    then show ?thesis
      using pr_tree_insert_spec(1) [OF inv'(1) ok' inv'(2)] by blast
  qed
  show ?thesis
    using new [of overwrite] repl dup [of overwrite] nomem [of overwrite] fails twice
    by (intro conjI allI impI; (elim conjE)?) blast+
qed

theorem insert_results_witness:
  "(\<exists>tree'. pr_tree_insert example_tree 5 50 0 True = Some (0, tree')
        \<and> pr_tree_search tree' 5 = 50
        \<and> pr_tree_insert tree' 5 51 0 True = Some (1, tree'))
   \<and> (\<exists>tree'. pr_tree_insert example_tree 3 33 1 True = Some (0, tree')
        \<and> pr_tree_search tree' 3 = 33)
   \<and> pr_tree_insert example_tree 3 33 0 True = Some (1, example_tree)
   \<and> pr_tree_insert example_tree 5 50 0 False = Some (- 1, example_tree)
   \<and> \<not> present (key_cmp example_tree) 5 (root example_tree)
   \<and> present (key_cmp example_tree) 3 (root example_tree)"
proof -
  note th = insert_results [OF example_tree_reachable example_tree_cmp_ok]
  have absent: "\<not> present (key_cmp example_tree) 5 (root example_tree)"
    by (simp add: example_tree_def present_def dict_ptr_cmp_def)
  have there: "present (key_cmp example_tree) 3 (root example_tree)"
    by (simp add: example_tree_def present_def dict_ptr_cmp_def)
  from th [where k = 5 and d = 50 and overwrite = 0 and m = True, THEN conjunct1, THEN mp,
      OF conjI [OF absent TrueI]]
  obtain tree' where first: "pr_tree_insert example_tree 5 50 0 True = Some (0, tree')"
      "pr_tree_search tree' 5 = 50"
    by blast
  have "pr_tree_insert tree' 5 51 0 True = Some (1, tree')"
    using th [where k = 5 and d = 50 and m = True and d' = 51 and m' = True,
        THEN conjunct2, THEN conjunct2, THEN conjunct2, THEN conjunct2, THEN conjunct2,
        THEN spec, THEN spec, THEN mp, of 0 tree'] first(1)
    by simp
  then have one: "\<exists>tree'. pr_tree_insert example_tree 5 50 0 True = Some (0, tree')
        \<and> pr_tree_search tree' 5 = 50
        \<and> pr_tree_insert tree' 5 51 0 True = Some (1, tree')"
    using first by blast
  have "(1::int) \<noteq> 0" by simp
  from th [where k = 3 and d = 33 and overwrite = 1 and m = True, THEN conjunct2, THEN conjunct1,
      THEN mp, OF conjI [OF there this]]
  have two: "\<exists>tree'. pr_tree_insert example_tree 3 33 1 True = Some (0, tree')
        \<and> pr_tree_search tree' 3 = 33"
    by blast
  have three: "pr_tree_insert example_tree 3 33 0 True = Some (1, example_tree)"
    using th [where k = 3 and d = 33 and overwrite = 0 and m = True, THEN conjunct2,
        THEN conjunct2, THEN conjunct1, THEN mp, OF conjI [OF there refl]] .
  have "\<not> False" by simp
  from th [where k = 5 and d = 50 and overwrite = 0 and m = False, THEN conjunct2,
        THEN conjunct2, THEN conjunct2, THEN conjunct1, THEN mp, OF conjI [OF absent this]]
  have four: "pr_tree_insert example_tree 5 50 0 False = Some (- 1, example_tree)" .
  have "(- 1 = (- 1::int)) \<longleftrightarrow> \<not> present (key_cmp example_tree) 5 (root example_tree) \<and> \<not> False"
    using th [where k = 5 and d = 50 and overwrite = 0 and m = False, THEN conjunct2,
        THEN conjunct2, THEN conjunct2, THEN conjunct2, THEN conjunct1, THEN spec, THEN spec,
        THEN mp, OF four] .
  then have five: "\<not> present (key_cmp example_tree) 5 (root example_tree)" by simp
  show ?thesis using one two three four five there by blast
qed

section \<open>The results of probe\<close>

text \<open>
  C5. The claim: \<^verbatim>\<open>pr_tree_probe\<close> on a key that exists returns 0, fills the slot with
  the stored value and leaves the tree unchanged; on an absent key it inserts a node
  with the value of the slot, returns 1, and a search then returns that value. The
  second half fails when the node cannot be allocated: on the empty tree, with a
  failing \<^verbatim>\<open>MALLOC\<close>, the probe for key 10 with 7 in the slot returns -1 and leaves the
  tree empty, so that a search for 10 still returns the null pointer.
\<close>

theorem probe_allocation_failure:
  "\<not> present dict_ptr_cmp 10 Null
   \<and> pr_tree_probe
        \<lparr> root = Null, count = 0, key_cmp = dict_ptr_cmp, del_func = False, deleted = [] \<rparr>
        10 7 False
      = Some (- 1, 7,
          \<lparr> root = Null, count = 0, key_cmp = dict_ptr_cmp, del_func = False, deleted = [] \<rparr>)
   \<and> pr_tree_search
        \<lparr> root = Null, count = 0, key_cmp = dict_ptr_cmp, del_func = False, deleted = [] \<rparr> 10
      = NULL"
  by (simp add: pr_tree_probe_def node_new_def pr_tree_search_def)

text \<open>
  C5 as amended. In a reachable tree under a comparator that orders the keys:
  \<^verbatim>\<open>pr_tree_probe\<close> on a key that is present returns 0, puts the datum stored with that
  key in the slot and leaves the tree unchanged, whether or not memory is available; on
  a key that is not present, when the node can be allocated, it inserts the key with the
  value of the slot, returns 1 and leaves the slot as it was, and a search for the key
  then returns that value; on a key that is not present, when the allocation fails, it
  returns -1 and leaves tree and slot unchanged.
\<close>

theorem probe_results:
  assumes "reachable tree" "cmp_ok (key_cmp tree)"
  shows "(present (key_cmp tree) k (root tree) \<longrightarrow>
            (\<exists>nk nd. (nk, nd) \<in> set (inorder (root tree)) \<and> key_cmp tree k nk = 0
                \<and> pr_tree_probe tree k slot m = Some (0, nd, tree)))
    \<and> (\<not> present (key_cmp tree) k (root tree) \<and> m \<longrightarrow>
            (\<exists>tree' xs ys. pr_tree_probe tree k slot m = Some (1, slot, tree')
                \<and> inorder (root tree) = xs @ ys \<and> inorder (root tree') = xs @ (k, slot) # ys
                \<and> pr_tree_search tree' k = slot))
    \<and> (\<not> present (key_cmp tree) k (root tree) \<and> \<not> m \<longrightarrow>
            pr_tree_probe tree k slot m = Some (- 1, slot, tree))"
proof -
  let ?cmp = "key_cmp tree"
  note inv = reachable_invs [OF assms]
  note spec = pr_tree_probe_spec [OF inv(1) assms(2) inv(2)]
  have found: "\<exists>nk nd. (nk, nd) \<in> set (inorder (root tree)) \<and> ?cmp k nk = 0
                \<and> pr_tree_probe tree k slot m = Some (0, nd, tree)"
    if p: "present ?cmp k (root tree)"
  proof -
    from p obtain nk nd where hit: "(nk, nd) \<in> set (inorder (root tree))" "?cmp k nk = 0"
      by (force simp: present_def list_ex_iff)
    have "search_loop ?cmp k (root tree) = nd"
      using pr_tree_search_hit [OF assms(2) inv(2) hit] by (simp add: pr_tree_search_def)
    then show ?thesis using spec(1) [OF p, of slot m] hit by auto
  qed
  have new: "\<exists>tree' xs ys. pr_tree_probe tree k slot m = Some (1, slot, tree')
                \<and> inorder (root tree) = xs @ ys \<and> inorder (root tree') = xs @ (k, slot) # ys
                \<and> pr_tree_search tree' k = slot"
    if "\<not> present ?cmp k (root tree)" "m"
  proof -
    from spec(3) [OF that, of slot] obtain t' xs ys where
      "pr_tree_probe tree k slot m = Some (1, slot, tree\<lparr> root := t', count := count tree + 1 \<rparr>)"
      "inorder (root tree) = xs @ ys" "inorder t' = xs @ (k, slot) # ys"
      "search_loop ?cmp k t' = slot"
      by blast
    then show ?thesis by (intro exI [of _ "tree\<lparr> root := t', count := count tree + 1 \<rparr>"]
          exI [of _ xs] exI [of _ ys]) (simp add: pr_tree_search_def)
  qed
  have nomem: "pr_tree_probe tree k slot m = Some (- 1, slot, tree)"
    if "\<not> present ?cmp k (root tree)" "\<not> m"
    using spec(2) [OF that] .
  show ?thesis using found new nomem by blast
qed

theorem probe_results_witness:
  "pr_tree_probe example_tree 3 77 True = Some (0, 30, example_tree)
   \<and> (\<exists>tree'. pr_tree_probe example_tree 5 50 True = Some (1, 50, tree')
          \<and> pr_tree_search tree' 5 = 50)
   \<and> pr_tree_probe example_tree 5 50 False = Some (- 1, 50, example_tree)"
proof -
  note th = probe_results [OF example_tree_reachable example_tree_cmp_ok]
  have absent: "\<not> present (key_cmp example_tree) 5 (root example_tree)"
    by (simp add: example_tree_def present_def dict_ptr_cmp_def)
  have there: "present (key_cmp example_tree) 3 (root example_tree)"
    by (simp add: example_tree_def present_def dict_ptr_cmp_def)
  from th [where k = 3 and slot = 77 and m = True, THEN conjunct1, THEN mp, OF there]
  obtain nk nd where hit: "(nk, nd) \<in> set (inorder (root example_tree))"
      "key_cmp example_tree 3 nk = 0"
      "pr_tree_probe example_tree 3 77 True = Some (0, nd, example_tree)"
    by blast
  have "nd = 30"
    using hit(1,2) by (auto simp: example_tree_def dict_ptr_cmp_def split: if_splits)
  then have one: "pr_tree_probe example_tree 3 77 True = Some (0, 30, example_tree)"
    using hit(3) by simp
  from th [where k = 5 and slot = 50 and m = True, THEN conjunct2, THEN conjunct1, THEN mp,
      OF conjI [OF absent TrueI]]
  have two: "\<exists>tree'. pr_tree_probe example_tree 5 50 True = Some (1, 50, tree')
          \<and> pr_tree_search tree' 5 = 50"
    by blast
  have "\<not> False" by simp
  from th [where k = 5 and slot = 50 and m = False, THEN conjunct2, THEN conjunct2, THEN mp,
      OF conjI [OF absent this]]
  have three: "pr_tree_probe example_tree 5 50 False = Some (- 1, 50, example_tree)" .
  show ?thesis using one two three by blast
qed

section \<open>Ordering\<close>

text \<open>
  C6. In every reachable tree under a comparator that orders the keys, a walk whose
  visitor never stops it visits the stored pairs in in-order sequence, once each, with
  keys strictly ascending for the comparator, and returns their number; and the keys
  read through an iterator, from \<^verbatim>\<open>pr_itor_first\<close> with \<^verbatim>\<open>pr_itor_next\<close> until the
  iterator is unbound, are the keys of the walk in the same order.
\<close>

theorem walk_ascending_iterator_agrees:
  assumes "reachable tree" "cmp_ok (key_cmp tree)"
  shows "snd (pr_tree_walk tree (\<lambda>k d. True)) = inorder (root tree)
    \<and> fst (pr_tree_walk tree (\<lambda>k d. True)) = of_nat (length (inorder (root tree)))
    \<and> fst (pr_tree_walk tree (\<lambda>k d. True)) = count tree
    \<and> sorted_wrt (\<lambda>a b. key_cmp tree a b < 0) (map fst (snd (pr_tree_walk tree (\<lambda>k d. True))))
    \<and> forward_keys tree = map fst (snd (pr_tree_walk tree (\<lambda>k d. True)))"
proof -
  note inv = reachable_invs [OF assms]
  have "count tree = of_nat (size (root tree))" using inv(1) by (simp add: tree_inv_def)
  moreover have "sorted_wrt (\<lambda>a b. key_cmp tree a b < 0) (map fst (inorder (root tree)))"
    using inv(2) by (simp add: ordered_def)
  ultimately show ?thesis
    by (simp add: pr_tree_walk_all forward_keys_all size_inorder)
qed

theorem walk_ascending_iterator_agrees_witness:
  "pr_tree_walk example_tree (\<lambda>k d. True) = (4, [(1, 10), (2, 20), (3, 30), (4, 40)])
   \<and> sorted_wrt (\<lambda>a b. key_cmp example_tree a b < 0) [1, 2, 3, 4]
   \<and> forward_keys example_tree = [1, 2, 3, 4]"
proof -
  note th = walk_ascending_iterator_agrees [OF example_tree_reachable example_tree_cmp_ok]
  have io: "inorder (root example_tree) = [(1, 10), (2, 20), (3, 30), (4, 40)]"
    by (simp add: example_tree_def)
  have "snd (pr_tree_walk example_tree (\<lambda>k d. True)) = [(1, 10), (2, 20), (3, 30), (4, 40)]"
    using th [THEN conjunct1] io by simp
  moreover have "fst (pr_tree_walk example_tree (\<lambda>k d. True)) = 4"
    using th [THEN conjunct2, THEN conjunct2, THEN conjunct1] by (simp add: example_tree_def)
  moreover have "sorted_wrt (\<lambda>a b. key_cmp example_tree a b < 0)
      (map fst (snd (pr_tree_walk example_tree (\<lambda>k d. True))))"
    using th [THEN conjunct2, THEN conjunct2, THEN conjunct2, THEN conjunct1] .
  moreover have "forward_keys example_tree = map fst (snd (pr_tree_walk example_tree (\<lambda>k d. True)))"
    using th [THEN conjunct2, THEN conjunct2, THEN conjunct2, THEN conjunct2] .
  ultimately show ?thesis
    by (cases "pr_tree_walk example_tree (\<lambda>k d. True)") simp
qed

section \<open>Termination of remove\<close>

text \<open>
  C7. \<^verbatim>\<open>pr_tree_remove\<close> on a key whose node has two children terminates. The loop is
  the function \<open>remove_loop\<close>, total by its termination proof: the subtree rooted at the
  node the loop looks at shrinks with every iteration. At a node with correct weights
  whose key compares equal and which has two children, one iteration rotates (the
  corrective rotation of the heavier child included when that child leans the wrong
  way), never fails, and continues the loop at the same node, with its key and datum,
  one level further down and with a strictly smaller subtree below it: the number of
  nodes of that subtree is the distance to the leaf or one-child case. From such a node
  the loop always returns 0 through one of the two splice branches, and so does the
  whole operation on a present key of a reachable tree.
\<close>

theorem remove_two_children_terminates:
  assumes "weight_inv (Node l nk nd w r)" "key_cmp tree k nk = 0"
  shows "(l \<noteq> Null \<and> r \<noteq> Null \<longrightarrow>
            (\<exists>out l' w' r'. remove_rotate (Node l nk nd w r) = Some (out, Node l' nk nd w' r')
                \<and> size (Node l' nk nd w' r') < size (Node l nk nd w r)
                \<and> remove_loop tree k (Node l nk nd w r) ps
                    = remove_loop tree k (Node l' nk nd w' r') (out # ps)))
    \<and> (\<exists>out ps'. remove_loop tree k (Node l nk nd w r) ps = Some (0, splice tree nk nd out ps'))
    \<and> (reachable tree \<and> cmp_ok (key_cmp tree) \<and> k \<noteq> NULL \<and> present (key_cmp tree) k (root tree) \<longrightarrow>
            (\<exists>tree'. pr_tree_remove tree k = Some (0, tree')))"
proof -
  have step: "\<exists>out l' w' r'. remove_rotate (Node l nk nd w r) = Some (out, Node l' nk nd w' r')
                \<and> size (Node l' nk nd w' r') < size (Node l nk nd w r)
                \<and> remove_loop tree k (Node l nk nd w r) ps
                    = remove_loop tree k (Node l' nk nd w' r') (out # ps)"
    if l: "l \<noteq> Null" and r: "r \<noteq> Null"
  proof -
    from remove_rotate_ok [OF assms(1) l r] obtain out l' w' r' where
      rot: "remove_rotate (Node l nk nd w r) = Some (out, Node l' nk nd w' r')"
        "size (Node l' nk nd w' r') < size (Node l nk nd w r)"
      by blast
    have "remove_loop tree k (Node l nk nd w r) ps
        = remove_loop tree k (Node l' nk nd w' r') (out # ps)"
      using assms(2) l r rot(1) by (simp add: remove_loop.simps)
    then show ?thesis using rot by blast
  qed
  have ends: "\<exists>out ps'. remove_loop tree k (Node l nk nd w r) ps
      = Some (0, splice tree nk nd out ps')"
    using remove_loop_found [OF assms(1) refl assms(2)] .
  have whole: "\<exists>tree'. pr_tree_remove tree k = Some (0, tree')"
    if "reachable tree" "cmp_ok (key_cmp tree)" "k \<noteq> NULL" "present (key_cmp tree) k (root tree)"
  proof -
    note inv = reachable_invs [OF that(1,2)]
    show ?thesis
      using pr_tree_remove_spec(2) [OF inv(1) that(2) inv(2) that(3,4)] by blast
  qed
  show ?thesis using step ends whole by blast
qed

theorem remove_two_children_terminates_witness:
  "remove_rotate (root example_tree)
     = Some (LeftOf 3 30 5 (Node Null 4 40 2 Null), Node (Node Null 1 10 2 Null) 2 20 3 Null)
   \<and> size (Node (Node Null 1 10 2 Null) 2 20 3 Null) < size (root example_tree)
   \<and> remove_loop example_tree 2 (root example_tree) []
       = remove_loop example_tree 2 (Node (Node Null 1 10 2 Null) 2 20 3 Null)
           [LeftOf 3 30 5 (Node Null 4 40 2 Null)]
   \<and> (\<exists>out ps'. remove_loop example_tree 2 (root example_tree) []
          = Some (0, splice example_tree 2 20 out ps'))
   \<and> (\<exists>tree'. pr_tree_remove example_tree 2 = Some (0, tree'))"
proof -
  have w: "weight_inv (Node (Node Null 1 10 2 Null) 2 20 5 (Node Null 3 30 3 (Node Null 4 40 2 Null)))"
    by simp
  have c: "key_cmp example_tree 2 2 = 0"
    by (simp add: example_tree_def dict_ptr_cmp_def)
  note th = remove_two_children_terminates [OF w c, where ps = "[]"]
  have root: "root example_tree
      = Node (Node Null 1 10 2 Null) 2 20 5 (Node Null 3 30 3 (Node Null 4 40 2 Null))"
    by (simp add: example_tree_def)
  have two: "Node Null 1 10 2 Null \<noteq> Null \<and> Node Null 3 30 3 (Node Null 4 40 2 Null) \<noteq> Null"
    by simp
  from th [THEN conjunct1, THEN mp, OF two] obtain out l' w' r' where
    rot: "remove_rotate (root example_tree) = Some (out, Node l' 2 20 w' r')"
      "size (Node l' 2 20 w' r') < size (root example_tree)"
      "remove_loop example_tree 2 (root example_tree) []
         = remove_loop example_tree 2 (Node l' 2 20 w' r') [out]"
    unfolding root by blast
  have "remove_rotate (root example_tree)
     = Some (LeftOf 3 30 5 (Node Null 4 40 2 Null), Node (Node Null 1 10 2 Null) 2 20 3 Null)"
    by (simp add: root remove_rotate_def)
  then have eq: "out = LeftOf 3 30 5 (Node Null 4 40 2 Null)"
      "Node l' 2 20 w' r' = Node (Node Null 1 10 2 Null) 2 20 3 Null"
    using rot(1) by simp_all
  have one: "remove_rotate (root example_tree)
     = Some (LeftOf 3 30 5 (Node Null 4 40 2 Null), Node (Node Null 1 10 2 Null) 2 20 3 Null)
   \<and> size (Node (Node Null 1 10 2 Null) 2 20 3 Null) < size (root example_tree)
   \<and> remove_loop example_tree 2 (root example_tree) []
       = remove_loop example_tree 2 (Node (Node Null 1 10 2 Null) 2 20 3 Null)
           [LeftOf 3 30 5 (Node Null 4 40 2 Null)]"
    using rot unfolding eq by blast
  have ends: "\<exists>out ps'. remove_loop example_tree 2 (root example_tree) []
          = Some (0, splice example_tree 2 20 out ps')"
    using th [THEN conjunct2, THEN conjunct1] unfolding root .
  have there: "present (key_cmp example_tree) 2 (root example_tree)"
    by (simp add: example_tree_def present_def dict_ptr_cmp_def)
  have nz: "(2::nat) \<noteq> NULL" by (simp add: NULL_def)
  have whole: "\<exists>tree'. pr_tree_remove example_tree 2 = Some (0, tree')"
    using th [THEN conjunct2, THEN conjunct2, THEN mp,
        OF conjI [OF example_tree_reachable conjI [OF example_tree_cmp_ok conjI [OF nz there]]]] .
  show ?thesis using one ends whole by blast
qed

lemma sorted_head_least:
  assumes "cmp_ok cmp" "sorted_wrt (\<lambda>a b. cmp a b < 0) (map fst (x # xs))" "y \<in> set (x # xs)"
  shows "cmp (fst x) (fst y) \<le> 0"
  using assms cmp_ok_refl [OF assms(1), of "fst x"] by auto

lemma sorted_last_greatest:
  assumes "cmp_ok cmp" "sorted_wrt (\<lambda>a b. cmp a b < 0) (map fst (xs @ [x]))" "y \<in> set (xs @ [x])"
  shows "cmp (fst y) (fst x) \<le> 0"
  using assms cmp_ok_refl [OF assms(1), of "fst x"] by (auto simp: sorted_wrt_append)

section \<open>The iterator\<close>

text \<open>
  C8. A new iterator (when it can be allocated) is unbound on an empty tree and
  otherwise stands on the first node of the in-order sequence of the tree, whose key
  no key of a reachable, ordered tree precedes. On an unbound iterator
  \<^verbatim>\<open>pr_itor_next\<close> does what \<^verbatim>\<open>pr_itor_first\<close> does and \<^verbatim>\<open>pr_itor_prev\<close> what
  \<^verbatim>\<open>pr_itor_last\<close> does, and both leave the iterator unbound when the tree is empty.
  On an iterator that stands on a node, \<^verbatim>\<open>pr_itor_next\<close> leaves it unbound exactly when
  nothing follows the node in the in-order sequence, and otherwise on the node that
  follows immediately, in the same tree; \<^verbatim>\<open>pr_itor_prev\<close> does the same backwards.
  The returned \<^verbatim>\<open>int\<close> tells whether the iterator is bound.
\<close>

theorem iterator_moves:
  "(root tree = Null \<longrightarrow>
      pr_itor_new True tree = Some \<lparr> itor_tree = tree, itor_node = None \<rparr>)
   \<and> (root tree \<noteq> Null \<longrightarrow>
      (\<exists>n. pr_itor_new True tree = Some \<lparr> itor_tree = tree, itor_node = Some n \<rparr>
           \<and> loc_root n = root tree \<and> loc_before n = []
           \<and> (reachable tree \<and> cmp_ok (key_cmp tree) \<longrightarrow>
                (\<forall>x \<in> set (inorder (root tree)). key_cmp tree (loc_key n) (fst x) \<le> 0))))
   \<and> (itor_node itor = None \<longrightarrow>
      pr_itor_next itor = pr_itor_first itor \<and> pr_itor_prev itor = pr_itor_last itor
      \<and> (root (itor_tree itor) = Null \<longrightarrow>
            pr_itor_next itor = (0, itor) \<and> pr_itor_prev itor = (0, itor))
      \<and> (root (itor_tree itor) \<noteq> Null \<longrightarrow>
            (\<exists>n n'. pr_itor_next itor = (1, itor\<lparr> itor_node := Some n \<rparr>)
                 \<and> loc_root n = root (itor_tree itor) \<and> loc_before n = []
                 \<and> pr_itor_prev itor = (1, itor\<lparr> itor_node := Some n' \<rparr>)
                 \<and> loc_root n' = root (itor_tree itor) \<and> loc_after n' = [])))
   \<and> (\<forall>n. itor_node itor = Some n \<longrightarrow>
      (loc_after n = [] \<longrightarrow> pr_itor_next itor = (0, itor\<lparr> itor_node := None \<rparr>))
      \<and> (loc_after n \<noteq> [] \<longrightarrow>
            (\<exists>n'. pr_itor_next itor = (1, itor\<lparr> itor_node := Some n' \<rparr>)
                 \<and> loc_root n' = loc_root n
                 \<and> loc_before n' = loc_before n @ [(loc_key n, loc_datum n)]
                 \<and> loc_after n = (loc_key n', loc_datum n') # loc_after n'))
      \<and> (loc_before n = [] \<longrightarrow> pr_itor_prev itor = (0, itor\<lparr> itor_node := None \<rparr>))
      \<and> (loc_before n \<noteq> [] \<longrightarrow>
            (\<exists>n'. pr_itor_prev itor = (1, itor\<lparr> itor_node := Some n' \<rparr>)
                 \<and> loc_root n' = loc_root n
                 \<and> loc_before n = loc_before n' @ [(loc_key n', loc_datum n')]
                 \<and> loc_after n' = (loc_key n, loc_datum n) # loc_after n)))"
proof -
  have empty: "pr_itor_new True tree = Some \<lparr> itor_tree = tree, itor_node = None \<rparr>"
    if "root tree = Null"
    using that by (simp add: pr_itor_new_def pr_itor_first_def Let_def)
  have first: "\<exists>n. pr_itor_new True tree = Some \<lparr> itor_tree = tree, itor_node = Some n \<rparr>
           \<and> loc_root n = root tree \<and> loc_before n = []
           \<and> (reachable tree \<and> cmp_ok (key_cmp tree) \<longrightarrow>
                (\<forall>x \<in> set (inorder (root tree)). key_cmp tree (loc_key n) (fst x) \<le> 0))"
    if "root tree \<noteq> Null"
  proof -
    from that obtain l k d w r where root: "root tree = Node l k d w r"
      by (cases "root tree") auto
    let ?n = "node_min (Loc l k d w r [])"
    have new: "pr_itor_new True tree = Some \<lparr> itor_tree = tree, itor_node = Some ?n \<rparr>"
      using root by (simp add: pr_itor_new_def pr_itor_first_def Let_def)
    have pos: "loc_root ?n = root tree" "loc_before ?n = []"
      using node_min_spec [of "Loc l k d w r []"] root by simp_all
    then have io: "inorder (root tree) = (loc_key ?n, loc_datum ?n) # loc_after ?n"
      using inorder_loc_root [of ?n] by simp
    have "\<forall>x \<in> set (inorder (root tree)). key_cmp tree (loc_key ?n) (fst x) \<le> 0"
      if "reachable tree" "cmp_ok (key_cmp tree)"
    proof
      fix x assume x: "x \<in> set (inorder (root tree))"
      have "sorted_wrt (\<lambda>a b. key_cmp tree a b < 0) (map fst (inorder (root tree)))"
        using reachable_ordered [OF that] by (simp add: ordered_def)
      then show "key_cmp tree (loc_key ?n) (fst x) \<le> 0"
        using sorted_head_least [OF that(2), of "(loc_key ?n, loc_datum ?n)" "loc_after ?n" x] x
        unfolding io by simp
    qed
    then show ?thesis using new pos by blast
  qed
  have unbound0: "pr_itor_next itor = pr_itor_first itor \<and> pr_itor_prev itor = pr_itor_last itor
      \<and> (root (itor_tree itor) = Null \<longrightarrow>
            pr_itor_next itor = (0, itor) \<and> pr_itor_prev itor = (0, itor))"
    if "itor_node itor = None"
    using that
    by (auto simp: pr_itor_next_def pr_itor_prev_def pr_itor_first_def pr_itor_last_def
          RETVALID_def Let_def split: option.splits)
  have unbound1: "\<exists>n n'. pr_itor_next itor = (1, itor\<lparr> itor_node := Some n \<rparr>)
                 \<and> loc_root n = root (itor_tree itor) \<and> loc_before n = []
                 \<and> pr_itor_prev itor = (1, itor\<lparr> itor_node := Some n' \<rparr>)
                 \<and> loc_root n' = root (itor_tree itor) \<and> loc_after n' = []"
    if none: "itor_node itor = None" and ne: "root (itor_tree itor) \<noteq> Null"
  proof -
    from ne obtain l k d w r where root: "root (itor_tree itor) = Node l k d w r"
      by (cases "root (itor_tree itor)") auto
    let ?n = "node_min (Loc l k d w r [])" and ?n' = "node_max (Loc l k d w r [])"
    have "pr_itor_next itor = (1, itor\<lparr> itor_node := Some ?n \<rparr>)"
        "pr_itor_prev itor = (1, itor\<lparr> itor_node := Some ?n' \<rparr>)"
      using none root
      by (simp_all add: pr_itor_next_def pr_itor_prev_def pr_itor_first_def pr_itor_last_def
            RETVALID_def Let_def)
    moreover have "loc_root ?n = root (itor_tree itor)" "loc_before ?n = []"
      using node_min_spec [of "Loc l k d w r []"] root by simp_all
    moreover have "loc_root ?n' = root (itor_tree itor)" "loc_after ?n' = []"
      using node_max_spec [of "Loc l k d w r []"] root by simp_all
    ultimately show ?thesis by blast
  qed
  have unbound: "pr_itor_next itor = pr_itor_first itor \<and> pr_itor_prev itor = pr_itor_last itor
      \<and> (root (itor_tree itor) = Null \<longrightarrow>
            pr_itor_next itor = (0, itor) \<and> pr_itor_prev itor = (0, itor))
      \<and> (root (itor_tree itor) \<noteq> Null \<longrightarrow>
            (\<exists>n n'. pr_itor_next itor = (1, itor\<lparr> itor_node := Some n \<rparr>)
                 \<and> loc_root n = root (itor_tree itor) \<and> loc_before n = []
                 \<and> pr_itor_prev itor = (1, itor\<lparr> itor_node := Some n' \<rparr>)
                 \<and> loc_root n' = root (itor_tree itor) \<and> loc_after n' = []))"
    if "itor_node itor = None"
    using unbound0 [OF that] unbound1 [OF that] by blast
  have bound: "(loc_after n = [] \<longrightarrow> pr_itor_next itor = (0, itor\<lparr> itor_node := None \<rparr>))
      \<and> (loc_after n \<noteq> [] \<longrightarrow>
            (\<exists>n'. pr_itor_next itor = (1, itor\<lparr> itor_node := Some n' \<rparr>)
                 \<and> loc_root n' = loc_root n
                 \<and> loc_before n' = loc_before n @ [(loc_key n, loc_datum n)]
                 \<and> loc_after n = (loc_key n', loc_datum n') # loc_after n'))
      \<and> (loc_before n = [] \<longrightarrow> pr_itor_prev itor = (0, itor\<lparr> itor_node := None \<rparr>))
      \<and> (loc_before n \<noteq> [] \<longrightarrow>
            (\<exists>n'. pr_itor_prev itor = (1, itor\<lparr> itor_node := Some n' \<rparr>)
                 \<and> loc_root n' = loc_root n
                 \<and> loc_before n = loc_before n' @ [(loc_key n', loc_datum n')]
                 \<and> loc_after n' = (loc_key n, loc_datum n) # loc_after n))"
    if n: "itor_node itor = Some n" for n
  proof -
    have nx0: "pr_itor_next itor = (0, itor\<lparr> itor_node := None \<rparr>)" if "loc_after n = []"
      using n that node_next_None [of n] by (simp add: pr_itor_next_def RETVALID_def Let_def)
    have nx1: "\<exists>n'. pr_itor_next itor = (1, itor\<lparr> itor_node := Some n' \<rparr>)
                 \<and> loc_root n' = loc_root n
                 \<and> loc_before n' = loc_before n @ [(loc_key n, loc_datum n)]
                 \<and> loc_after n = (loc_key n', loc_datum n') # loc_after n'"
      if "loc_after n \<noteq> []"
    proof -
      from that obtain n' where n': "node_next n = Some n'"
        using node_next_None [of n] by (cases "node_next n") auto
      have "pr_itor_next itor = (1, itor\<lparr> itor_node := Some n' \<rparr>)"
        using n n' by (simp add: pr_itor_next_def RETVALID_def Let_def)
      then show ?thesis using node_next_Some [OF n'] by blast
    qed
    have pv0: "pr_itor_prev itor = (0, itor\<lparr> itor_node := None \<rparr>)" if "loc_before n = []"
      using n that node_prev_None [of n] by (simp add: pr_itor_prev_def RETVALID_def Let_def)
    have pv1: "\<exists>n'. pr_itor_prev itor = (1, itor\<lparr> itor_node := Some n' \<rparr>)
                 \<and> loc_root n' = loc_root n
                 \<and> loc_before n = loc_before n' @ [(loc_key n', loc_datum n')]
                 \<and> loc_after n' = (loc_key n, loc_datum n) # loc_after n"
      if "loc_before n \<noteq> []"
    proof -
      from that obtain n' where n': "node_prev n = Some n'"
        using node_prev_None [of n] by (cases "node_prev n") auto
      have "pr_itor_prev itor = (1, itor\<lparr> itor_node := Some n' \<rparr>)"
        using n n' by (simp add: pr_itor_prev_def RETVALID_def Let_def)
      then show ?thesis using node_prev_Some [OF n'] by blast
    qed
    show ?thesis using nx0 nx1 pv0 pv1 by blast
  qed
  show ?thesis
    using empty first unbound bound by (intro conjI impI allI) blast+
qed

theorem iterator_moves_witness:
  "pr_itor_new True \<lparr> root = Null, count = 0, key_cmp = dict_ptr_cmp, del_func = False, deleted = [] \<rparr>
     = Some \<lparr> itor_tree = \<lparr> root = Null, count = 0, key_cmp = dict_ptr_cmp, del_func = False,
                              deleted = [] \<rparr>,
              itor_node = None \<rparr>
   \<and> pr_itor_next \<lparr> itor_tree = \<lparr> root = Null, count = 0, key_cmp = dict_ptr_cmp,
                                    del_func = False, deleted = [] \<rparr>,
                    itor_node = None \<rparr>
       = (0, \<lparr> itor_tree = \<lparr> root = Null, count = 0, key_cmp = dict_ptr_cmp,
                                del_func = False, deleted = [] \<rparr>,
                itor_node = None \<rparr>)
   \<and> (\<exists>n. pr_itor_new True example_tree = Some \<lparr> itor_tree = example_tree, itor_node = Some n \<rparr>
          \<and> loc_key n = 1 \<and> loc_before n = []
          \<and> key_cmp example_tree (loc_key n) 4 \<le> 0
          \<and> (\<exists>n'. pr_itor_next \<lparr> itor_tree = example_tree, itor_node = Some n \<rparr>
                     = (1, \<lparr> itor_tree = example_tree, itor_node = Some n' \<rparr>)
                 \<and> loc_key n' = 2
                 \<and> (\<exists>n''. pr_itor_prev \<lparr> itor_tree = example_tree, itor_node = Some n' \<rparr>
                            = (1, \<lparr> itor_tree = example_tree, itor_node = Some n'' \<rparr>)
                        \<and> loc_key n'' = 1))
          \<and> pr_itor_prev \<lparr> itor_tree = example_tree, itor_node = Some n \<rparr>
               = (0, \<lparr> itor_tree = example_tree, itor_node = None \<rparr>))
   \<and> (\<exists>n z. pr_itor_next \<lparr> itor_tree = example_tree, itor_node = None \<rparr>
               = (1, \<lparr> itor_tree = example_tree, itor_node = Some n \<rparr>)
          \<and> loc_key n = 1
          \<and> pr_itor_prev \<lparr> itor_tree = example_tree, itor_node = None \<rparr>
               = (1, \<lparr> itor_tree = example_tree, itor_node = Some z \<rparr>)
          \<and> loc_key z = 4
          \<and> pr_itor_next \<lparr> itor_tree = example_tree, itor_node = Some z \<rparr>
               = (0, \<lparr> itor_tree = example_tree, itor_node = None \<rparr>))"
proof -
  let ?empty = "\<lparr> root = Null, count = 0, key_cmp = dict_ptr_cmp, del_func = False, deleted = [] \<rparr>"
  have io: "inorder (root example_tree) = [(1, 10), (2, 20), (3, 30), (4, 40)]"
    by (simp add: example_tree_def)
  have ne: "root example_tree \<noteq> Null" by (simp add: example_tree_def)
  have one: "pr_itor_new True ?empty = Some \<lparr> itor_tree = ?empty, itor_node = None \<rparr>"
    using iterator_moves [where tree = ?empty, THEN conjunct1] by simp
  let ?ue = "\<lparr> itor_tree = ?empty, itor_node = None \<rparr>"
  have ue: "itor_node ?ue = None" and ee: "root (itor_tree ?ue) = Null" by simp_all
  have two: "pr_itor_next ?ue = (0, ?ue)"
    using iterator_moves [where itor = ?ue, THEN conjunct2, THEN conjunct2, THEN conjunct1,
        THEN mp, OF ue, THEN conjunct2, THEN conjunct2, THEN conjunct1, THEN mp, OF ee,
        THEN conjunct1] .
  from iterator_moves [where tree = example_tree, THEN conjunct2, THEN conjunct1, THEN mp, OF ne]
  obtain n where n:
    "pr_itor_new True example_tree = Some \<lparr> itor_tree = example_tree, itor_node = Some n \<rparr>"
    "loc_root n = root example_tree" "loc_before n = []"
    "reachable example_tree \<and> cmp_ok (key_cmp example_tree) \<longrightarrow>
       (\<forall>x \<in> set (inorder (root example_tree)). key_cmp example_tree (loc_key n) (fst x) \<le> 0)"
    by blast
  have least: "key_cmp example_tree (loc_key n) 4 \<le> 0"
    using n(4) example_tree_reachable example_tree_cmp_ok io by simp
  have seq: "(loc_key n, loc_datum n) # loc_after n = [(1, 10), (2, 20), (3, 30), (4, 40)]"
    using inorder_loc_root [of n] n(2,3) io by simp
  then have key: "loc_key n = 1" and after: "loc_after n \<noteq> []" by auto
  let ?it = "\<lparr> itor_tree = example_tree, itor_node = Some n \<rparr>"
  note bound = iterator_moves [where itor = ?it, THEN conjunct2, THEN conjunct2, THEN conjunct2,
      THEN spec, THEN mp, of n, simplified]
  from bound [THEN conjunct2, THEN conjunct1] after
  obtain n' where n':
    "pr_itor_next ?it = (1, \<lparr> itor_tree = example_tree, itor_node = Some n' \<rparr>)"
    "loc_before n' = loc_before n @ [(loc_key n, loc_datum n)]"
    "loc_after n = (loc_key n', loc_datum n') # loc_after n'"
    by auto
  have key': "loc_key n' = 2" using n'(3) seq by auto
  have before': "loc_before n' \<noteq> []" using n'(2) by simp
  let ?it' = "\<lparr> itor_tree = example_tree, itor_node = Some n' \<rparr>"
  note bound' = iterator_moves [where itor = ?it', THEN conjunct2, THEN conjunct2, THEN conjunct2,
      THEN spec, THEN mp, of n', simplified]
  from bound' [THEN conjunct2, THEN conjunct2, THEN conjunct2] before'
  obtain n'' where n'':
    "pr_itor_prev ?it' = (1, \<lparr> itor_tree = example_tree, itor_node = Some n'' \<rparr>)"
    "loc_before n' = loc_before n'' @ [(loc_key n'', loc_datum n'')]"
    by auto
  have key'': "loc_key n'' = 1" using n''(2) n'(2) n(3) key by simp
  have prev: "pr_itor_prev ?it = (0, \<lparr> itor_tree = example_tree, itor_node = None \<rparr>)"
    using bound [THEN conjunct2, THEN conjunct2, THEN conjunct1] n(3) by simp
  let ?un = "\<lparr> itor_tree = example_tree, itor_node = None \<rparr>"
  have un: "itor_node ?un = None" and ne': "root (itor_tree ?un) \<noteq> Null"
    using ne by simp_all
  from iterator_moves [where itor = ?un, THEN conjunct2, THEN conjunct2, THEN conjunct1,
      THEN mp, OF un, THEN conjunct2, THEN conjunct2, THEN conjunct2, THEN mp, OF ne']
  obtain m z where m: "pr_itor_next ?un = (1, ?un\<lparr> itor_node := Some m \<rparr>)"
    "loc_root m = root (itor_tree ?un)" "loc_before m = []"
    and z: "pr_itor_prev ?un = (1, ?un\<lparr> itor_node := Some z \<rparr>)"
    "loc_root z = root (itor_tree ?un)" "loc_after z = []"
    by blast
  have keym: "loc_key m = 1"
    using inorder_loc_root [of m] m(2,3) io by simp
  have "loc_before z @ [(loc_key z, loc_datum z)] = [(1, 10), (2, 20), (3, 30)] @ [(4, 40)]"
    using inorder_loc_root [of z] z(2,3) io by simp
  then have keyz: "loc_key z = 4" by (simp only: append1_eq_conv) simp
  let ?itz = "\<lparr> itor_tree = example_tree, itor_node = Some z \<rparr>"
  note boundz = iterator_moves [where itor = ?itz, THEN conjunct2, THEN conjunct2, THEN conjunct2,
      THEN spec, THEN mp, of z, simplified]
  have nextz: "pr_itor_next ?itz = (0, \<lparr> itor_tree = example_tree, itor_node = None \<rparr>)"
    using boundz [THEN conjunct1] z(3) by simp
  have m': "pr_itor_next ?un = (1, \<lparr> itor_tree = example_tree, itor_node = Some m \<rparr>)"
    using m(1) by simp
  have z': "pr_itor_prev ?un = (1, \<lparr> itor_tree = example_tree, itor_node = Some z \<rparr>)"
    using z(1) by simp
  have A: "\<exists>n. pr_itor_new True example_tree = Some \<lparr> itor_tree = example_tree, itor_node = Some n \<rparr>
          \<and> loc_key n = 1 \<and> loc_before n = []
          \<and> key_cmp example_tree (loc_key n) 4 \<le> 0
          \<and> (\<exists>n'. pr_itor_next \<lparr> itor_tree = example_tree, itor_node = Some n \<rparr>
                     = (1, \<lparr> itor_tree = example_tree, itor_node = Some n' \<rparr>)
                 \<and> loc_key n' = 2
                 \<and> (\<exists>n''. pr_itor_prev \<lparr> itor_tree = example_tree, itor_node = Some n' \<rparr>
                            = (1, \<lparr> itor_tree = example_tree, itor_node = Some n'' \<rparr>)
                        \<and> loc_key n'' = 1))
          \<and> pr_itor_prev \<lparr> itor_tree = example_tree, itor_node = Some n \<rparr>
               = (0, \<lparr> itor_tree = example_tree, itor_node = None \<rparr>)"
    using n(1,3) key least n'(1) key' n''(1) key'' prev by blast
  have B: "\<exists>n z. pr_itor_next \<lparr> itor_tree = example_tree, itor_node = None \<rparr>
               = (1, \<lparr> itor_tree = example_tree, itor_node = Some n \<rparr>)
          \<and> loc_key n = 1
          \<and> pr_itor_prev \<lparr> itor_tree = example_tree, itor_node = None \<rparr>
               = (1, \<lparr> itor_tree = example_tree, itor_node = Some z \<rparr>)
          \<and> loc_key z = 4
          \<and> pr_itor_next \<lparr> itor_tree = example_tree, itor_node = Some z \<rparr>
               = (0, \<lparr> itor_tree = example_tree, itor_node = None \<rparr>)"
    using m' keym z' keyz nextz by blast
  show ?thesis using one two A B by blast
qed

lemma dict_ptr_cmp_less: "(\<lambda>a b. dict_ptr_cmp a b < 0) = (<)"
  by (auto simp: dict_ptr_cmp_def fun_eq_iff)

section \<open>Creation without a comparator\<close>

text \<open>
  C9. \<^verbatim>\<open>pr_tree_new\<close> fails exactly when the tree cannot be allocated, whatever the
  comparator argument. With a null comparator it returns an empty tree whose comparator
  is \<^verbatim>\<open>dict_ptr_cmp\<close>, which compares two keys as their addresses compare; in every tree
  that operations make of such a tree the in-order sequence of the keys is strictly
  ascending by address.
\<close>

theorem new_without_comparator:
  "(pr_tree_new malloc_ok cmp del = None \<longleftrightarrow> \<not> malloc_ok)
   \<and> pr_tree_new True None del
       = Some \<lparr> root = Null, count = 0, key_cmp = dict_ptr_cmp, del_func = del, deleted = [] \<rparr>
   \<and> (dict_ptr_cmp a b < 0 \<longleftrightarrow> a < b) \<and> (dict_ptr_cmp a b = 0 \<longleftrightarrow> a = b)
   \<and> (dict_ptr_cmp a b > 0 \<longleftrightarrow> a > b)
   \<and> (\<forall>tree0 ops tree. pr_tree_new True None del = Some tree0 \<and> run_ops tree0 ops = Some tree \<longrightarrow>
         key_cmp tree = dict_ptr_cmp \<and> sorted_wrt (<) (map fst (inorder (root tree))))"
proof -
  have run: "key_cmp tree = dict_ptr_cmp \<and> sorted_wrt (<) (map fst (inorder (root tree)))"
    if new: "pr_tree_new True None del = Some tree0" and ops: "run_ops tree0 ops = Some tree"
    for tree0 ops tree
  proof -
    have r: "reachable tree" unfolding reachable_def using new ops by blast
    have "key_cmp tree0 = dict_ptr_cmp" using new by (auto simp: pr_tree_new_def)
    then have c: "key_cmp tree = dict_ptr_cmp"
      using tree_inv_run_ops [OF tree_inv_new [OF new] ops] by simp
    then have "cmp_ok (key_cmp tree)" by (simp add: cmp_ok_dict_ptr_cmp)
    from reachable_ordered [OF r this] show ?thesis
      using c by (simp add: ordered_def dict_ptr_cmp_less)
  qed
  have fails: "pr_tree_new malloc_ok cmp del = None \<longleftrightarrow> \<not> malloc_ok"
    by (simp add: pr_tree_new_def)
  have new: "pr_tree_new True None del
       = Some \<lparr> root = Null, count = 0, key_cmp = dict_ptr_cmp, del_func = del, deleted = [] \<rparr>"
    by (simp add: pr_tree_new_def)
  have cmp: "dict_ptr_cmp a b < 0 \<longleftrightarrow> a < b" "dict_ptr_cmp a b = 0 \<longleftrightarrow> a = b"
      "dict_ptr_cmp a b > 0 \<longleftrightarrow> a > b"
    by (auto simp: dict_ptr_cmp_def)
  have all: "\<forall>tree0 ops tree. pr_tree_new True None del = Some tree0 \<and> run_ops tree0 ops = Some tree \<longrightarrow>
         key_cmp tree = dict_ptr_cmp \<and> sorted_wrt (<) (map fst (inorder (root tree)))"
    using run by blast
  show ?thesis
    by (intro conjI) (rule fails new cmp all)+
qed

theorem new_without_comparator_witness:
  "pr_tree_new True None False
     = Some \<lparr> root = Null, count = 0, key_cmp = dict_ptr_cmp, del_func = False, deleted = [] \<rparr>
   \<and> run_ops \<lparr> root = Null, count = 0, key_cmp = dict_ptr_cmp, del_func = False, deleted = [] \<rparr>
       [Insert 2 20 0 True, Insert 1 10 0 True, Insert 3 30 0 True, Insert 4 40 0 True]
     = Some example_tree
   \<and> key_cmp example_tree = dict_ptr_cmp
   \<and> sorted_wrt (<) (map fst (inorder (root example_tree)))
   \<and> map fst (inorder (root example_tree)) = [1, 2, 3, 4]"
proof -
  let ?t0 = "\<lparr> root = Null, count = 0, key_cmp = dict_ptr_cmp, del_func = False, deleted = [] \<rparr>"
  note th = new_without_comparator [where del = False]
  have new: "pr_tree_new True None False = Some ?t0"
    using th [THEN conjunct2, THEN conjunct1] .
  have run: "run_ops ?t0
       [Insert 2 20 0 True, Insert 1 10 0 True, Insert 3 30 0 True, Insert 4 40 0 True]
     = Some example_tree"
    by (simp add: example_tree_def pr_tree_insert_def node_new_def dict_ptr_cmp_def
          fixup.simps Let_def)
  have "key_cmp example_tree = dict_ptr_cmp
      \<and> sorted_wrt (<) (map fst (inorder (root example_tree)))"
    using th [THEN conjunct2, THEN conjunct2, THEN conjunct2, THEN conjunct2, THEN conjunct2,
        THEN spec, THEN spec, THEN spec, THEN mp, OF conjI [OF new run]] .
  moreover have "map fst (inorder (root example_tree)) = [1, 2, 3, 4]"
    by (simp add: example_tree_def)
  ultimately show ?thesis using new run by blast
qed

section \<open>The null pointer as the absent marker\<close>

text \<open>
  C10. \<^verbatim>\<open>pr_tree_search\<close> returns the null pointer for a key that is not present and
  the stored datum itself for a key that is present; \<^verbatim>\<open>pr_itor_key\<close>,
  \<^verbatim>\<open>pr_itor_data\<close> and \<^verbatim>\<open>pr_itor_cdata\<close> return the null pointer on an unbound
  iterator. So a search for a key stored with a null datum returns what a search for a
  key that is not present returns, while \<^verbatim>\<open>pr_tree_probe\<close> tells the two apart by its
  return value (0 for the stored key, not 0 for the other).
\<close>

theorem null_marks_absence:
  assumes "reachable tree" "cmp_ok (key_cmp tree)"
  shows "(\<not> present (key_cmp tree) k (root tree) \<longrightarrow> pr_tree_search tree k = NULL)
    \<and> (\<forall>nk nd. (nk, nd) \<in> set (inorder (root tree)) \<and> key_cmp tree k nk = 0 \<longrightarrow>
          pr_tree_search tree k = nd)
    \<and> (itor_node itor = None \<longrightarrow>
          pr_itor_key itor = NULL \<and> pr_itor_data itor = NULL \<and> pr_itor_cdata itor = NULL)
    \<and> (\<forall>n. itor_node itor = Some n \<longrightarrow>
          pr_itor_key itor = loc_key n \<and> pr_itor_data itor = loc_datum n
          \<and> pr_itor_cdata itor = loc_datum n)
    \<and> (\<forall>nk k2. (nk, NULL) \<in> set (inorder (root tree)) \<and> key_cmp tree k nk = 0
                 \<and> \<not> present (key_cmp tree) k2 (root tree) \<longrightarrow>
          pr_tree_search tree k = pr_tree_search tree k2
          \<and> (\<exists>rv slot' tree'. pr_tree_probe tree k slot m = Some (0, slot', tree)
                \<and> pr_tree_probe tree k2 slot m = Some (rv, slot, tree') \<and> rv \<noteq> 0))"
proof -
  note inv = reachable_invs [OF assms]
  have miss: "pr_tree_search tree k = NULL" if "\<not> present (key_cmp tree) k (root tree)" for k
    using pr_tree_search_miss [OF assms(2) inv(2) that] .
  have hit: "pr_tree_search tree k = nd"
    if "(nk, nd) \<in> set (inorder (root tree))" "key_cmp tree k nk = 0" for nk nd
    using pr_tree_search_hit [OF assms(2) inv(2) that] .
  have unbound: "pr_itor_key itor = NULL \<and> pr_itor_data itor = NULL \<and> pr_itor_cdata itor = NULL"
    if "itor_node itor = None"
    using that by (simp add: pr_itor_key_def pr_itor_data_def pr_itor_cdata_def)
  have bound: "pr_itor_key itor = loc_key n \<and> pr_itor_data itor = loc_datum n
          \<and> pr_itor_cdata itor = loc_datum n"
    if "itor_node itor = Some n" for n
    using that by (simp add: pr_itor_key_def pr_itor_data_def pr_itor_cdata_def)
  have same: "pr_tree_search tree k = pr_tree_search tree k2
          \<and> (\<exists>rv slot' tree'. pr_tree_probe tree k slot m = Some (0, slot', tree)
                \<and> pr_tree_probe tree k2 slot m = Some (rv, slot, tree') \<and> rv \<noteq> 0)"
    if stored: "(nk, NULL) \<in> set (inorder (root tree))" "key_cmp tree k nk = 0"
      and absent: "\<not> present (key_cmp tree) k2 (root tree)" for nk k2
  proof -
    have p: "present (key_cmp tree) k (root tree)"
      using stored by (force simp: present_def list_ex_iff)
    have one: "pr_tree_probe tree k slot m = Some (0, search_loop (key_cmp tree) k (root tree), tree)"
      using pr_tree_probe_spec(1) [OF inv(1) assms(2) inv(2) p] .
    have two: "\<exists>rv tree'. pr_tree_probe tree k2 slot m = Some (rv, slot, tree') \<and> rv \<noteq> 0"
    proof (cases m)
      case True
      from pr_tree_probe_spec(3) [OF inv(1) assms(2) inv(2) absent True, of slot]
      show ?thesis by auto
    next
      case False
      from pr_tree_probe_spec(2) [OF inv(1) assms(2) inv(2) absent False, of slot]
      show ?thesis by auto
    qed
    show ?thesis
      using hit [OF stored] miss [OF absent] one two by auto
  qed
  show ?thesis
    using miss [of k] hit unbound bound same
    by (intro conjI allI impI; (elim conjE)?) blast+
qed

theorem null_marks_absence_witness:
  "(7, NULL) \<in> set (inorder (root null_datum_tree))
   \<and> \<not> present (key_cmp null_datum_tree) 9 (root null_datum_tree)
   \<and> pr_tree_search null_datum_tree 7 = NULL
   \<and> pr_tree_search null_datum_tree 9 = NULL
   \<and> pr_itor_key \<lparr> itor_tree = null_datum_tree, itor_node = None \<rparr> = NULL
   \<and> pr_itor_data \<lparr> itor_tree = null_datum_tree, itor_node = None \<rparr> = NULL
   \<and> pr_itor_cdata \<lparr> itor_tree = null_datum_tree, itor_node = None \<rparr> = NULL
   \<and> pr_itor_key \<lparr> itor_tree = null_datum_tree, itor_node = Some (Loc Null 7 0 2 Null []) \<rparr> = 7
   \<and> pr_itor_data \<lparr> itor_tree = null_datum_tree, itor_node = Some (Loc Null 7 0 2 Null []) \<rparr>
       = NULL
   \<and> (\<exists>slot'. pr_tree_probe null_datum_tree 7 5 True = Some (0, slot', null_datum_tree))
   \<and> (\<exists>rv tree'. pr_tree_probe null_datum_tree 9 5 True = Some (rv, 5, tree') \<and> rv \<noteq> 0)"
proof -
  let ?it = "\<lparr> itor_tree = null_datum_tree, itor_node = None \<rparr>"
  let ?itb = "\<lparr> itor_tree = null_datum_tree, itor_node = Some (Loc Null 7 0 2 Null []) \<rparr>"
  note th = null_marks_absence [OF null_datum_tree_reachable null_datum_tree_cmp_ok,
      where itor = ?it and slot = 5 and m = True]
  note thb = null_marks_absence [OF null_datum_tree_reachable null_datum_tree_cmp_ok,
      where itor = ?itb and slot = 5 and m = True and k = 7]
  have stored: "(7, NULL) \<in> set (inorder (root null_datum_tree))"
    by (simp add: null_datum_tree_def NULL_def)
  have eq: "key_cmp null_datum_tree 7 7 = 0"
    by (simp add: null_datum_tree_def dict_ptr_cmp_def)
  have absent: "\<not> present (key_cmp null_datum_tree) 9 (root null_datum_tree)"
    by (simp add: null_datum_tree_def present_def dict_ptr_cmp_def)
  have s9: "pr_tree_search null_datum_tree 9 = NULL"
    using th [where k = 9, THEN conjunct1, THEN mp, OF absent] .
  have s7: "pr_tree_search null_datum_tree 7 = NULL"
    using th [where k = 7, THEN conjunct2, THEN conjunct1, THEN spec, THEN spec, THEN mp,
        OF conjI [OF stored eq]] .
  have un: "itor_node ?it = None" by simp
  have it: "pr_itor_key ?it = NULL \<and> pr_itor_data ?it = NULL \<and> pr_itor_cdata ?it = NULL"
    using th [where k = 7, THEN conjunct2, THEN conjunct2, THEN conjunct1, THEN mp, OF un] .
  have bn: "itor_node ?itb = Some (Loc Null 7 0 2 Null [])" by simp
  have "pr_itor_key ?itb = loc_key (Loc Null 7 0 2 Null [])
      \<and> pr_itor_data ?itb = loc_datum (Loc Null 7 0 2 Null [])
      \<and> pr_itor_cdata ?itb = loc_datum (Loc Null 7 0 2 Null [])"
    using thb [THEN conjunct2, THEN conjunct2, THEN conjunct2, THEN conjunct1, THEN spec,
        THEN mp, OF bn] .
  then have itb: "pr_itor_key ?itb = 7" "pr_itor_data ?itb = NULL"
    by (simp_all add: NULL_def)
  have "pr_tree_search null_datum_tree 7 = pr_tree_search null_datum_tree 9
          \<and> (\<exists>rv slot' tree'. pr_tree_probe null_datum_tree 7 5 True = Some (0, slot', null_datum_tree)
                \<and> pr_tree_probe null_datum_tree 9 5 True = Some (rv, 5, tree') \<and> rv \<noteq> 0)"
    using th [where k = 7, THEN conjunct2, THEN conjunct2, THEN conjunct2, THEN conjunct2,
        THEN spec, THEN spec, THEN mp, OF conjI [OF stored conjI [OF eq absent]]] .
  then have p7: "\<exists>slot'. pr_tree_probe null_datum_tree 7 5 True = Some (0, slot', null_datum_tree)"
    and p9: "\<exists>rv tree'. pr_tree_probe null_datum_tree 9 5 True = Some (rv, 5, tree') \<and> rv \<noteq> 0"
    by blast+
  show ?thesis
    by (intro conjI) (rule stored absent s7 s9 it [THEN conjunct1]
        it [THEN conjunct2, THEN conjunct1] it [THEN conjunct2, THEN conjunct2] itb p7 p9)+
qed

end
